theory Spec2Isabelle
  imports Main "HOL-Library.List_Lexorder"
begin

section \<open>Data model\<close>

text \<open>
  A Python \<open>str\<close> is a sequence of Unicode code points; it is modelled as a list of
  natural numbers, so that \<open>sorted\<close> (which compares code point by code point, a proper
  prefix being smaller) is the lexicographic order on lists. \<open>bytes\<close> is a list of
  natural numbers as well; only its emptiness is ever inspected by the program itself.
  \<open>str_of\<close> turns a literal into its code points.
\<close>

type_synonym pystr = "nat list"
type_synonym bytes = "nat list"

definition str_of :: "string \<Rightarrow> pystr" where
  "str_of s = map of_char s"

text \<open>The two quote characters \<open>"\<close> (34) and \<open>'\<close> (39).\<close>

definition dq :: nat where
  "dq = 34"

definition sq :: nat where
  "sq = 39"

text \<open>
  A raised exception. \<open>except Exception\<close> catches the instances of \<open>Exception\<close> only;
  \<open>KeyboardInterrupt\<close>, \<open>SystemExit\<close> and the like derive from \<open>BaseException\<close> alone
  and pass through every handler of the program.
\<close>

datatype pyexc = Exc string | BaseExc string

text \<open>Truthiness of an \<open>Optional[bytes]\<close> and of an \<open>Optional[str]\<close>: \<open>None\<close> and the empty
  sequence are false.\<close>

fun truthy :: "nat list option \<Rightarrow> bool" where
  "truthy None = False"
| "truthy (Some s) = (s \<noteq> [])"

section \<open>DefaultRequests\<close>

text \<open>
  The \<open>requests\<close> library and the network behind it are parameters of the model:
  \<open>session_default_headers\<close> are the headers a new \<open>Session\<close> starts with,
  \<open>header_key\<close> is the key under which the case-insensitive dictionary of the session
  headers files a header name (\<open>key.lower()\<close>), \<open>disable_warnings\<close> is the import of
  \<open>InsecureRequestWarning\<close> followed by the call of \<open>disable_warnings\<close> (it raises or
  not), \<open>session_get\<close> is \<open>Session.get\<close> with the session's headers, the URL, the timeout
  and the \<open>verify\<close> flag (it raises a transport error or returns the response it ends
  with, redirections followed). Console output is not modelled.
\<close>

record response =
  status_code :: nat
  content :: bytes

record requests_lib =
  session_default_headers :: "(pystr \<times> pystr) list"
  header_key :: "pystr \<Rightarrow> pystr"
  disable_warnings :: "pyexc option"
  session_get :: "(pystr \<times> pystr) list \<Rightarrow> pystr \<Rightarrow> nat \<Rightarrow> bool \<Rightarrow> pyexc + response"

text \<open>
  \<open>Response.raise_for_status\<close>, as the library documents it: it raises \<open>HTTPError\<close> for a
  client error (status codes 400 to 499) and for a server error (500 to 599), and returns
  for every other status code.
\<close>

definition raise_for_status :: "response \<Rightarrow> pyexc option" where
  "raise_for_status resp =
     (if 400 \<le> status_code resp \<and> status_code resp < 600 then Some (Exc ''HTTPError'') else None)"

record DefaultRequests_obj =
  timeout :: nat
  session_headers :: "(pystr \<times> pystr) list"

definition DEFAULT_TIMEOUT :: nat where
  "DEFAULT_TIMEOUT = 5"

definition DEFAULT_HEADERS :: "(pystr \<times> pystr) list" where
  "DEFAULT_HEADERS =
     [(str_of ''User-Agent'',
       str_of ''Mozilla/5.0 (Windows NT 10.0; Win64; x64) ''
       @ str_of ''AppleWebKit/537.36 (KHTML, like Gecko) ''
       @ str_of ''Chrome/90.0.4430.93 Safari/537.36'')]"

text \<open>
  \<open>session.headers[k] = v\<close>: the session headers compare names without regard to case. A
  name that is already present (under the same \<open>header_key\<close>) keeps its place and takes
  the new spelling and value; a new name is appended.
\<close>

fun header_set ::
  "requests_lib \<Rightarrow> (pystr \<times> pystr) list \<Rightarrow> pystr \<Rightarrow> pystr \<Rightarrow> (pystr \<times> pystr) list" where
  "header_set lib [] k v = [(k, v)]"
| "header_set lib ((k', v') # hs) k v =
     (if header_key lib k' = header_key lib k then (k, v) # hs
      else (k', v') # header_set lib hs k v)"

text \<open>\<open>session.headers.update(new)\<close> sets the entries of \<open>new\<close> one after the other.\<close>

definition headers_update ::
  "requests_lib \<Rightarrow> (pystr \<times> pystr) list \<Rightarrow> (pystr \<times> pystr) list \<Rightarrow> (pystr \<times> pystr) list" where
  "headers_update lib old new = fold (\<lambda>(k, v) hs. header_set lib hs k v) new old"

text \<open>\<open>__init__\<close>: a \<open>headers\<close> argument that is \<open>None\<close> or empty is not applied.\<close>

definition DefaultRequests_init ::
  "requests_lib \<Rightarrow> nat \<Rightarrow> (pystr \<times> pystr) list option \<Rightarrow> DefaultRequests_obj" where
  "DefaultRequests_init lib t hs =
     \<lparr>timeout = t,
      session_headers =
        (case hs of
           None \<Rightarrow> headers_update lib (session_default_headers lib) DEFAULT_HEADERS
         | Some h \<Rightarrow>
             if h \<noteq> []
             then headers_update lib (headers_update lib (session_default_headers lib) DEFAULT_HEADERS) h
             else headers_update lib (session_default_headers lib) DEFAULT_HEADERS)\<rparr>"

text \<open>The handler \<open>except Exception as e: ...; return None\<close>.\<close>

fun request_failed :: "pyexc \<Rightarrow> pyexc + bytes option" where
  "request_failed (Exc m) = Inr None"
| "request_failed (BaseExc m) = Inl (BaseExc m)"

definition DefaultRequests_get ::
  "requests_lib \<Rightarrow> DefaultRequests_obj \<Rightarrow> pystr \<Rightarrow> bool \<Rightarrow> pyexc + bytes option" where
  "DefaultRequests_get lib self u verify_ssl =
     (case (if \<not> verify_ssl then disable_warnings lib else None) of
        Some e \<Rightarrow> request_failed e
      | None \<Rightarrow>
          (case session_get lib (session_headers self) u (timeout self) verify_ssl of
             Inl e \<Rightarrow> request_failed e
           | Inr resp \<Rightarrow>
               (case raise_for_status resp of
                  Some e \<Rightarrow> request_failed e
                | None \<Rightarrow> Inr (Some (content resp)))))"

text \<open>
  The status codes the specification calls successful: the class 2xx. The program never
  compares a status code itself; the notion serves to state what \<open>get\<close> does with the
  other codes.
\<close>

definition success_status :: "nat \<Rightarrow> bool" where
  "success_status c \<longleftrightarrow> 200 \<le> c \<and> c < 300"

section \<open>The recognition grammar\<close>

text \<open>
  The regular expressions that \<open>DEFAULT_RULES\<close> is built from: literal text, one character
  of a class, a greedy bounded repetition \<open>{lo,hi}\<close> of a class (every quantifier of the
  pattern stands on a class), sequence, alternation (the left alternative is tried first),
  the empty alternative, and a numbered capturing group. A class lists single characters
  and ranges, and may be negated.
\<close>

datatype citem = One nat | Range nat nat

fun citem_has :: "citem \<Rightarrow> nat \<Rightarrow> bool" where
  "citem_has (One a) c = (c = a)"
| "citem_has (Range a b) c = (a \<le> c \<and> c \<le> b)"

datatype cls = In "citem list" | NotIn "citem list"

fun cls_has :: "cls \<Rightarrow> nat \<Rightarrow> bool" where
  "cls_has (In items) c = (\<exists>i \<in> set items. citem_has i c)"
| "cls_has (NotIn items) c = (\<not> (\<exists>i \<in> set items. citem_has i c))"

datatype rx =
    Lit pystr
  | Cls cls
  | Rep cls nat "nat option"
  | Seq rx rx
  | Alt rx rx
  | Empty
  | Grp nat rx

type_synonym groups = "nat \<rightharpoonup> pystr"

text \<open>
  The backtracking matcher. \<open>ms r s\<close> lists, in the order in which a backtracking engine
  finds them, the ways in which \<open>r\<close> matches a prefix of \<open>s\<close>: the text consumed and the
  groups set on the way. The head of the list is the match that \<open>re\<close> reports at this
  position; the list is empty when there is none. A greedy repetition offers the longest
  run first and gives characters back one at a time.
\<close>

fun ms :: "rx \<Rightarrow> pystr \<Rightarrow> (pystr \<times> groups) list" where
  "ms (Lit l) s = (if take (length l) s = l then [(l, Map.empty)] else [])"
| "ms (Cls k) s =
     (case s of [] \<Rightarrow> [] | c # _ \<Rightarrow> if cls_has k c then [([c], Map.empty)] else [])"
| "ms (Rep k lo hi) s =
     (let run = takeWhile (cls_has k) (case hi of None \<Rightarrow> s | Some h \<Rightarrow> take h s)
      in map (\<lambda>i. (take i run, Map.empty)) (rev [lo ..< Suc (length run)]))"
| "ms (Seq a b) s =
     concat (map (\<lambda>(w1, g1). map (\<lambda>(w2, g2). (w1 @ w2, g1 ++ g2))
                                (ms b (drop (length w1) s)))
                 (ms a s))"
| "ms (Alt a b) s = ms a s @ ms b s"
| "ms Empty s = [([], Map.empty)]"
| "ms (Grp n r) s = map (\<lambda>(w, g). (w, g(n \<mapsto> w))) (ms r s)"

text \<open>
  \<open>DEFAULT_RULES\<close>, compiled with \<open>re.VERBOSE\<close>: white space outside a class and the
  comments are dropped, a space inside a class stands for itself. The classes are written
  in the order of the source, repetitions included (\<open>(\<close> and \<open>%\<close> occur twice in the
  first class).
\<close>

definition ones :: "string \<Rightarrow> citem list" where
  "ones s = map (\<lambda>c. One (of_char c)) s"

text \<open>\<open>(?:"|')\<close>\<close>

definition delimiter :: rx where
  "delimiter = Alt (Lit [dq]) (Lit [sq])"

text \<open>\<open>[^"'><,;| *()(%%$^/\\\[\]]\<close>: backslash is 92, the brackets are 91 and 93.\<close>

definition path_first :: cls where
  "path_first = NotIn ([One dq, One sq] @ ones ''><,;| *()(%%$^/'' @ [One 92, One 91, One 93])"

text \<open>\<open>[^"'><,;|()]\<close>\<close>

definition path_rest :: cls where
  "path_rest = NotIn ([One dq, One sq] @ ones ''><,;|()'')"

text \<open>\<open>[a-zA-Z0-9_\-/]\<close>\<close>

definition segment_char :: cls where
  "segment_char = In [Range 97 122, Range 65 90, Range 48 57, One 95, One 45, One 47]"

text \<open>\<open>[a-zA-Z0-9_\-]\<close>\<close>

definition filename_char :: cls where
  "filename_char = In [Range 97 122, Range 65 90, Range 48 57, One 95, One 45]"

text \<open>\<open>[a-zA-Z]\<close>\<close>

definition letter :: cls where
  "letter = In [Range 97 122, Range 65 90]"

text \<open>\<open>[\?|/]\<close>: the question mark (63), the bar (124) and the slash (47).\<close>

definition remainder_start :: cls where
  "remainder_start = In (ones ''?|/'')"

text \<open>\<open>[^"|']\<close>\<close>

definition remainder_char :: cls where
  "remainder_char = NotIn [One dq, One 124, One sq]"

text \<open>Group 2: \<open>((?:/|\.\./|\./)[^...][^...]{1,})\<close>\<close>

definition branch1 :: rx where
  "branch1 =
     Grp 2 (Seq (Alt (Lit (str_of ''/'')) (Alt (Lit (str_of ''../'')) (Lit (str_of ''./''))))
           (Seq (Cls path_first)
                (Rep path_rest 1 None)))"

text \<open>Group 3:
  \<open>([a-zA-Z0-9_\-/]{1,}/[a-zA-Z0-9_\-/]{1,}\.(?:[a-zA-Z]{1,4}|action)(?:[\?|/][^"|']{0,}|))\<close>\<close>

definition branch2 :: rx where
  "branch2 =
     Grp 3 (Seq (Rep segment_char 1 None)
           (Seq (Lit (str_of ''/''))
           (Seq (Rep segment_char 1 None)
           (Seq (Lit (str_of ''.''))
           (Seq (Alt (Rep letter 1 (Some 4)) (Lit (str_of ''action'')))
                (Alt (Seq (Cls remainder_start) (Rep remainder_char 0 None)) Empty))))))"

text \<open>\<open>(?:php|asp|aspx|jsp|json|action|html|js|txt|xml)\<close>\<close>

definition extension :: rx where
  "extension =
     Alt (Lit (str_of ''php'')) (Alt (Lit (str_of ''asp'')) (Alt (Lit (str_of ''aspx''))
    (Alt (Lit (str_of ''jsp'')) (Alt (Lit (str_of ''json'')) (Alt (Lit (str_of ''action''))
    (Alt (Lit (str_of ''html'')) (Alt (Lit (str_of ''js'')) (Alt (Lit (str_of ''txt''))
         (Lit (str_of ''xml''))))))))))"

text \<open>Group 4: \<open>([a-zA-Z0-9_\-]{1,}\.(?:php|...|xml)(?:\?[^"|']{0,}|))\<close>\<close>

definition branch3 :: rx where
  "branch3 =
     Grp 4 (Seq (Rep filename_char 1 None)
           (Seq (Lit (str_of ''.''))
           (Seq extension
                (Alt (Seq (Lit (str_of ''?'')) (Rep remainder_char 0 None)) Empty))))"

text \<open>The three shapes, in the order in which they are tried.\<close>

definition alternatives :: rx where
  "alternatives = Alt branch1 (Alt branch2 branch3)"

definition RULE :: rx where
  "RULE = Seq delimiter (Seq (Grp 1 alternatives) delimiter)"

text \<open>
  \<open>RULE.finditer(text)\<close>: the scanner tries \<open>RULE\<close> at every position from left to right;
  after a match it resumes behind the text the match consumed, so matches do not overlap.
  The first argument counts the characters that still belong to the last match.
\<close>

fun finditer :: "nat \<Rightarrow> pystr \<Rightarrow> groups list" where
  "finditer k [] =
     (if k = 0 then (case ms RULE [] of [] \<Rightarrow> [] | (w, g) # _ \<Rightarrow> [g]) else [])"
| "finditer (Suc k) (c # cs) = finditer k cs"
| "finditer 0 (c # cs) =
     (case ms RULE (c # cs) of
        [] \<Rightarrow> finditer 0 cs
      | (w, g) # _ \<Rightarrow> g # finditer (length w - 1) cs)"

text \<open>\<open>m.group(n)\<close>: \<open>None\<close> for a group that took no part in the match.\<close>

definition match_group :: "groups \<Rightarrow> nat \<Rightarrow> pystr option" where
  "match_group m n = m n"

section \<open>DefaultParsed\<close>

text \<open>
  \<open>bytes.decode('utf-8', errors='ignore')\<close> and the \<open>BeautifulSoup\<close> query
  \<open>[tag['src'] for tag in soup.find_all('script', src=True)]\<close> are library code and
  parameters of the model; each returns its value or raises.
\<close>

record parser_lib =
  decode_utf8_ignore :: "bytes \<Rightarrow> pyexc + pystr"
  script_srcs :: "bytes \<Rightarrow> pyexc + pystr list"

definition DefaultParsed_extract_scripts :: "parser_lib \<Rightarrow> bytes \<Rightarrow> pyexc + pystr list" where
  "DefaultParsed_extract_scripts lib html =
     (case script_srcs lib html of
        Inr scripts \<Rightarrow> Inr scripts
      | Inl (Exc m) \<Rightarrow> Inr []
      | Inl (BaseExc m) \<Rightarrow> Inl (BaseExc m))"

text \<open>
  \<open>urls = [m.group(1) for m in self.RULE.finditer(text)]\<close>. Group 1 takes part in every
  match of \<open>RULE\<close> (lemma \<open>RULE_match_shape\<close> below), so \<open>the\<close> is never applied to
  \<open>None\<close>.
\<close>

definition findall_group1 :: "pystr \<Rightarrow> pystr list" where
  "findall_group1 text = map (\<lambda>m. the (match_group m 1)) (finditer 0 text)"

definition DefaultParsed_extract_urls_from_js :: "parser_lib \<Rightarrow> bytes \<Rightarrow> pyexc + pystr list" where
  "DefaultParsed_extract_urls_from_js lib js =
     (case decode_utf8_ignore lib js of
        Inl (Exc m) \<Rightarrow> Inr []
      | Inl (BaseExc m) \<Rightarrow> Inl (BaseExc m)
      | Inr text \<Rightarrow> Inr (findall_group1 text))"

text \<open>
  \<open>str.strip()\<close> removes the leading and trailing characters for which \<open>str.isspace\<close>
  holds: the code points 9 to 13, 28 to 32, U+0085, U+00A0, U+1680, U+2000 to U+200A,
  U+2028, U+2029, U+202F, U+205F and U+3000.
\<close>

definition isspace :: "nat \<Rightarrow> bool" where
  "isspace c \<longleftrightarrow>
     (9 \<le> c \<and> c \<le> 13) \<or> (28 \<le> c \<and> c \<le> 32) \<or> c = 133 \<or> c = 160 \<or> c = 5760
     \<or> (8192 \<le> c \<and> c \<le> 8202) \<or> c = 8232 \<or> c = 8233 \<or> c = 8239 \<or> c = 8287
     \<or> c = 12288"

definition strip :: "pystr \<Rightarrow> pystr" where
  "strip s = rev (dropWhile isspace (rev (dropWhile isspace s)))"

text \<open>
  \<open>sorted({p.strip() for p in paths if p.strip()}, key=lambda x: x)\<close>: a Python set is
  finite, and sorting its members, which are pairwise different, gives one list whatever
  the iteration order of the set was.
\<close>

definition clean :: "pystr set \<Rightarrow> pystr list" where
  "clean paths = sorted_list_of_set (strip ` {p \<in> paths. strip p \<noteq> []})"

section \<open>The interfaces and process_target\<close>

text \<open>
  \<open>RequestsInterface\<close> and \<open>ParsedInterface\<close>: an instance is the record of its
  methods. A method of a user-supplied class may raise, so every method returns its
  value or the exception.
\<close>

record requests_inst =
  get :: "pystr \<Rightarrow> bool \<Rightarrow> pyexc + bytes option"

record parsed_inst =
  extract_scripts :: "bytes \<Rightarrow> pyexc + pystr list"
  extract_urls_from_js :: "bytes \<Rightarrow> pyexc + pystr list"
  clean_paths :: "pystr set \<Rightarrow> pyexc + pystr list"

definition DefaultRequests_inst :: "requests_lib \<Rightarrow> requests_inst" where
  "DefaultRequests_inst lib =
     \<lparr>get = DefaultRequests_get lib (DefaultRequests_init lib DEFAULT_TIMEOUT None)\<rparr>"

definition DefaultParsed_inst :: "parser_lib \<Rightarrow> parsed_inst" where
  "DefaultParsed_inst lib =
     \<lparr>extract_scripts = DefaultParsed_extract_scripts lib,
      extract_urls_from_js = DefaultParsed_extract_urls_from_js lib,
      clean_paths = (\<lambda>paths. Inr (clean paths))\<rparr>"

text \<open>
  \<open>urljoin\<close> and the thread pool are parameters. \<open>as_completed\<close> receives the
  \<open>max_workers\<close> argument the pool was built with (\<open>None\<close> for \<open>ThreadPoolExecutor()\<close>)
  and the outcomes of the submitted calls in submission order, and returns them in the
  order in which the futures complete: some rearrangement of its argument.
\<close>

record runtime =
  urljoin :: "pystr \<Rightarrow> pystr \<Rightarrow> pyexc + pystr"
  as_completed :: "nat option \<Rightarrow> (pyexc + bytes option) list \<Rightarrow> (pyexc + bytes option) list"

text \<open>\<open>[urljoin(url, s) for s in scripts]\<close>: the first exception ends the comprehension.\<close>

fun join_all :: "runtime \<Rightarrow> pystr \<Rightarrow> pystr list \<Rightarrow> pyexc + pystr list" where
  "join_all rt u [] = Inr []"
| "join_all rt u (s # ss) =
     (case urljoin rt u s of
        Inl e \<Rightarrow> Inl e
      | Inr j \<Rightarrow> (case join_all rt u ss of Inl e \<Rightarrow> Inl e | Inr js \<Rightarrow> Inr (j # js)))"

text \<open>
  The loop \<open>for f in as_completed(futures)\<close>: \<open>f.result()\<close> raises what the call raised;
  a truthy payload is scanned and its candidates are added to \<open>found\<close>.
\<close>

fun collect :: "parsed_inst \<Rightarrow> (pyexc + bytes option) list \<Rightarrow> pystr set \<Rightarrow> pyexc + pystr set" where
  "collect parsed [] found = Inr found"
| "collect parsed (Inl e # rs) found = Inl e"
| "collect parsed (Inr None # rs) found = collect parsed rs found"
| "collect parsed (Inr (Some js) # rs) found =
     (if js = [] then collect parsed rs found
      else (case extract_urls_from_js parsed js of
              Inl e \<Rightarrow> Inl e
            | Inr urls \<Rightarrow> collect parsed rs (found \<union> set urls)))"

definition process_target ::
  "runtime \<Rightarrow> pystr \<Rightarrow> parsed_inst \<Rightarrow> requests_inst \<Rightarrow> bool \<Rightarrow> pyexc + pystr set" where
  "process_target rt u parsed req verify_ssl =
     (case get req u verify_ssl of
        Inl e \<Rightarrow> Inl e
      | Inr None \<Rightarrow> Inr {}
      | Inr (Some html) \<Rightarrow>
          if html = [] then Inr {}
          else
            (case extract_scripts parsed html of
               Inl e \<Rightarrow> Inl e
             | Inr scripts \<Rightarrow>
                 (case join_all rt u scripts of
                    Inl e \<Rightarrow> Inl e
                  | Inr full_js_urls \<Rightarrow>
                      collect parsed
                        (as_completed rt None (map (\<lambda>js_url. get req js_url verify_ssl) full_js_urls))
                        {})))"

section \<open>load_custom\<close>

text \<open>
  The objects \<open>load_custom\<close> can return: the two built-in classes, or an attribute of the
  loaded module, with its \<open>__name__\<close> if it has one. A module is the map from attribute
  names to objects. Loading a module (\<open>spec_from_file_location\<close>, \<open>module_from_spec\<close> and
  \<open>exec_module\<close> for a path ending in \<open>.py\<close>, \<open>import_module\<close> otherwise) is a parameter.
\<close>

datatype pyobj = DefaultParsed | DefaultRequests | Attr nat "pystr option"

fun has_name :: "pyobj \<Rightarrow> bool" where
  "has_name DefaultParsed = True"
| "has_name DefaultRequests = True"
| "has_name (Attr i n) = (n \<noteq> None)"

type_synonym pymodule = "pystr \<rightharpoonup> pyobj"

record loader =
  exec_file_module :: "pystr \<Rightarrow> pyexc + pymodule"
  import_module :: "pystr \<Rightarrow> pyexc + pymodule"

definition endswith :: "pystr \<Rightarrow> pystr \<Rightarrow> bool" where
  "endswith s suffix \<longleftrightarrow> take (length suffix) (rev s) = rev suffix"

text \<open>\<open>getattr(module, name, default)\<close>\<close>

definition getattr :: "pymodule \<Rightarrow> pystr \<Rightarrow> pyobj \<Rightarrow> pyobj" where
  "getattr module name dflt = (case module name of Some obj \<Rightarrow> obj | None \<Rightarrow> dflt)"

text \<open>The handler \<open>except Exception as e: ...; return DefaultParsed, DefaultRequests\<close>.\<close>

fun load_failed :: "pyexc \<Rightarrow> pyexc + pyobj \<times> pyobj" where
  "load_failed (Exc m) = Inr (DefaultParsed, DefaultRequests)"
| "load_failed (BaseExc m) = Inl (BaseExc m)"

text \<open>Reading \<open>parsed.__name__\<close> for the message raises \<open>AttributeError\<close> when the object
  has no such attribute; the handler then returns the defaults.\<close>

definition load_custom ::
  "loader \<Rightarrow> pystr option \<Rightarrow> pystr option \<times> pystr option \<Rightarrow> pyexc + pyobj \<times> pyobj" where
  "load_custom ld path cls_names =
     (case cls_names of (parsed_name, req_name) \<Rightarrow>
        (case path of
           None \<Rightarrow> Inr (DefaultParsed, DefaultRequests)
         | Some p \<Rightarrow>
             if p = [] then Inr (DefaultParsed, DefaultRequests)
             else
               (case (if endswith p (str_of ''.py'') then exec_file_module ld p
                      else import_module ld p) of
                  Inl e \<Rightarrow> load_failed e
                | Inr module \<Rightarrow>
                    (let parsed = (if truthy parsed_name
                                   then getattr module (the parsed_name) DefaultParsed
                                   else DefaultParsed)
                     in if truthy parsed_name \<and> \<not> has_name parsed
                        then load_failed (Exc ''AttributeError'')
                        else
                          (let req = (if truthy req_name
                                      then getattr module (the req_name) DefaultRequests
                                      else DefaultRequests)
                           in if truthy req_name \<and> \<not> has_name req
                              then load_failed (Exc ''AttributeError'')
                              else Inr (parsed, req))))))"

section \<open>main\<close>

text \<open>
  The parsed command line. \<open>workers\<close> has the default 10, \<open>ssl\<close> the default \<open>False\<close>; the
  other options are \<open>None\<close> when absent.
\<close>

record args =
  arg_url :: "pystr option"
  arg_file :: "pystr option"
  arg_custom_module :: "pystr option"
  arg_parsed_name :: "pystr option"
  arg_request_name :: "pystr option"
  arg_workers :: int
  arg_ssl :: bool
  arg_output :: "pystr option"

text \<open>
  What \<open>main\<close> needs from outside: the libraries, \<open>read_lines\<close> for
  \<open>Path(file).read_text(encoding='utf-8').splitlines()\<close>, and the constructors of the
  classes \<open>load_custom\<close> may return. The built-in classes construct the built-in instances.
\<close>

record world =
  w_requests :: requests_lib
  w_parser :: parser_lib
  w_runtime :: runtime
  w_loader :: loader
  read_lines :: "pystr \<Rightarrow> pyexc + pystr list"
  custom_parsed :: "pyobj \<Rightarrow> pyexc + parsed_inst"
  custom_requests :: "pyobj \<Rightarrow> pyexc + requests_inst"

definition new_parsed :: "world \<Rightarrow> pyobj \<Rightarrow> pyexc + parsed_inst" where
  "new_parsed w c = (if c = DefaultParsed then Inr (DefaultParsed_inst (w_parser w)) else custom_parsed w c)"

definition new_requests :: "world \<Rightarrow> pyobj \<Rightarrow> pyexc + requests_inst" where
  "new_requests w c =
     (if c = DefaultRequests then Inr (DefaultRequests_inst (w_requests w)) else custom_requests w c)"

text \<open>
  The outcome of a run: \<open>parser.error\<close> (exit before any network activity), an exception
  that leaves \<open>main\<close>, or the list printed to standard output, with the lines appended to
  the output file when one was named.
\<close>

datatype outcome =
    Usage_error
  | Raised pyexc
  | Printed "pystr list" "(pystr \<times> pystr list) option"

text \<open>The loop \<open>for u in urls: all_urls |= process_target(u, parsed_inst, req_inst, args.ssl)\<close>.\<close>

fun process_all ::
  "runtime \<Rightarrow> parsed_inst \<Rightarrow> requests_inst \<Rightarrow> bool \<Rightarrow> pystr list \<Rightarrow> pystr set \<Rightarrow> pyexc + pystr set" where
  "process_all rt parsed req verify_ssl [] all_urls = Inr all_urls"
| "process_all rt parsed req verify_ssl (u # us) all_urls =
     (case process_target rt u parsed req verify_ssl of
        Inl e \<Rightarrow> Inl e
      | Inr result \<Rightarrow> process_all rt parsed req verify_ssl us (all_urls \<union> result))"

text \<open>The part of \<open>main\<close> after the target list is known.\<close>

definition run_targets :: "world \<Rightarrow> args \<Rightarrow> pystr list \<Rightarrow> outcome" where
  "run_targets w a urls =
     (case load_custom (w_loader w) (arg_custom_module a) (arg_parsed_name a, arg_request_name a) of
        Inl e \<Rightarrow> Raised e
      | Inr (parsed_cls, req_cls) \<Rightarrow>
          (case new_parsed w parsed_cls of
             Inl e \<Rightarrow> Raised e
           | Inr parsed \<Rightarrow>
               (case new_requests w req_cls of
                  Inl e \<Rightarrow> Raised e
                | Inr req \<Rightarrow>
                    (case process_all (w_runtime w) parsed req (arg_ssl a) urls {} of
                       Inl e \<Rightarrow> Raised e
                     | Inr all_urls \<Rightarrow>
                         (case clean_paths parsed all_urls of
                            Inl e \<Rightarrow> Raised e
                          | Inr cleaned \<Rightarrow>
                              Printed cleaned
                                (if truthy (arg_output a)
                                 then Some (the (arg_output a), cleaned) else None))))))"

definition main :: "world \<Rightarrow> args \<Rightarrow> outcome" where
  "main w a =
     (if \<not> truthy (arg_url a) \<and> \<not> truthy (arg_file a) then Usage_error
      else if truthy (arg_custom_module a)
              \<and> \<not> (truthy (arg_parsed_name a) \<or> truthy (arg_request_name a)) then Usage_error
      else
        (case (if truthy (arg_file a) then read_lines w (the (arg_file a)) else Inr []) of
           Inl e \<Rightarrow> Raised e
         | Inr lines \<Rightarrow>
             (let urls = map strip (filter (\<lambda>l. strip l \<noteq> []) lines)
                         @ (if truthy (arg_url a) then [the (arg_url a)] else [])
              in if urls = [] then Usage_error else run_targets w a urls)))"

section \<open>Auxiliary notions\<close>

text \<open>
  \<open>matched r s\<close> is the set of prefixes of \<open>s\<close> that \<open>r\<close> can match, whatever the groups;
  \<open>accepts r w\<close> says that \<open>r\<close> can match the whole of \<open>w\<close>; \<open>may_contain r c\<close> says that
  the character \<open>c\<close> can occur in a text matched by \<open>r\<close>.
\<close>

definition matched :: "rx \<Rightarrow> pystr \<Rightarrow> pystr set" where
  "matched r s = fst ` set (ms r s)"

definition accepts :: "rx \<Rightarrow> pystr \<Rightarrow> bool" where
  "accepts r w \<longleftrightarrow> w \<in> matched r w"

fun may_contain :: "rx \<Rightarrow> nat \<Rightarrow> bool" where
  "may_contain (Lit l) c = (c \<in> set l)"
| "may_contain (Cls k) c = cls_has k c"
| "may_contain (Rep k lo hi) c = cls_has k c"
| "may_contain (Seq a b) c = (may_contain a c \<or> may_contain b c)"
| "may_contain (Alt a b) c = (may_contain a c \<or> may_contain b c)"
| "may_contain Empty c = False"
| "may_contain (Grp n r) c = may_contain r c"

definition is_quote :: "nat \<Rightarrow> bool" where
  "is_quote c \<longleftrightarrow> c = dq \<or> c = sq"

definition quote_free :: "pystr \<Rightarrow> bool" where
  "quote_free s \<longleftrightarrow> dq \<notin> set s \<and> sq \<notin> set s"

text \<open>
  The characters that may not follow the prefix of a path literal (space, the angle
  brackets, comma, semicolon, bar, star, the parentheses, percent, dollar, caret, slash,
  the square brackets, the quotes and the backslash, 92), and those that may not occur
  later in it.
\<close>

definition denied_first :: "nat set" where
  "denied_first = set (str_of ''><,;| *()%$^/[]'') \<union> {dq, sq, 92}"

definition denied_rest :: "nat set" where
  "denied_rest = set (str_of ''><,;|()'') \<union> {dq, sq}"

text \<open>
  The denylist as the specification words it: space, angle brackets, comma, semicolon,
  pipe, wildcard, parentheses, percent, dollar, caret, backslash and the square brackets.
  The slash is not on it.
\<close>

definition spec_denylist :: "nat set" where
  "spec_denylist = set (str_of '' ><,;|*()%$^[]'') \<union> {92}"

text \<open>
  Letters, and the characters of a file name (letters, digits, underscore and dash); a
  segment text is a non-empty text of file name characters and slashes (47), a short
  extension has one to four letters or is the word \<open>action\<close>, and a remainder text holds
  neither a quote nor a bar (124).
\<close>

definition is_letter :: "nat \<Rightarrow> bool" where
  "is_letter c \<longleftrightarrow> (97 \<le> c \<and> c \<le> 122) \<or> (65 \<le> c \<and> c \<le> 90)"

definition is_word_dash :: "nat \<Rightarrow> bool" where
  "is_word_dash c \<longleftrightarrow> is_letter c \<or> (48 \<le> c \<and> c \<le> 57) \<or> c = 95 \<or> c = 45"

definition segment_text :: "pystr \<Rightarrow> bool" where
  "segment_text s \<longleftrightarrow> s \<noteq> [] \<and> (\<forall>x \<in> set s. is_word_dash x \<or> x = 47)"

definition filename_text :: "pystr \<Rightarrow> bool" where
  "filename_text s \<longleftrightarrow> s \<noteq> [] \<and> (\<forall>x \<in> set s. is_word_dash x)"

definition short_extension :: "pystr \<Rightarrow> bool" where
  "short_extension e \<longleftrightarrow>
     (e \<noteq> [] \<and> length e \<le> 4 \<and> (\<forall>x \<in> set e. is_letter x)) \<or> e = str_of ''action''"

definition allowlist :: "pystr list" where
  "allowlist = map str_of [''php'', ''asp'', ''aspx'', ''jsp'', ''json'', ''action'', ''html'',
     ''js'', ''txt'', ''xml'']"

definition remainder_text :: "pystr \<Rightarrow> bool" where
  "remainder_text r \<longleftrightarrow> dq \<notin> set r \<and> sq \<notin> set r \<and> 124 \<notin> set r"

section \<open>Example environments\<close>

text \<open>Concrete libraries, instances and loaders on which the theorems below are exercised,
  and the two auxiliary notions used to state what the loop of \<open>process_target\<close> collects.\<close>

definition ascii_lower :: "pystr \<Rightarrow> pystr" where
  "ascii_lower s = map (\<lambda>c. if 65 \<le> c \<and> c \<le> 90 then c + 32 else c) s"

definition example_lib :: requests_lib where
  "example_lib =
     \<lparr>session_default_headers = [(str_of ''Accept'', str_of ''*/*'')],
      header_key = ascii_lower,
      disable_warnings = None,
      session_get =
        (\<lambda>hs u t v.
           if u = str_of ''http://down'' then Inl (Exc ''ConnectTimeout'')
           else if u = str_of ''http://host/missing''
                then Inr \<lparr>status_code = 404, content = str_of ''gone''\<rparr>
           else if u = str_of ''http://host/choices''
                then Inr \<lparr>status_code = 300, content = str_of ''choices''\<rparr>
           else Inr \<lparr>status_code = 200, content = str_of ''ok''\<rparr>)\<rparr>"

text \<open>A decoder for scripts in ASCII, where the bytes are the code points.\<close>

definition example_parser :: parser_lib where
  "example_parser = \<lparr>decode_utf8_ignore = (\<lambda>js. Inr js), script_srcs = (\<lambda>html. Inr [])\<rparr>"

definition example_req :: requests_inst where
  "example_req = \<lparr>get = (\<lambda>u v. if u = str_of ''http://empty'' then Inr (Some [])
                              else if u = str_of ''http://page'' then Inr (Some (str_of ''<html>''))
                              else if u = str_of ''http://page/a.js''
                                   then Inr (Some (str_of ''x = 1''))
                              else Inr None)\<rparr>"

definition example_parsed :: parsed_inst where
  "example_parsed =
     \<lparr>extract_scripts = (\<lambda>html. Inr [str_of ''a.js'', str_of ''b.js'']),
      extract_urls_from_js = (\<lambda>js. Inr [str_of ''/api/v1/users'']),
      clean_paths = (\<lambda>paths. Inr (clean paths))\<rparr>"

definition example_rt :: runtime where
  "example_rt = \<lparr>urljoin = (\<lambda>base s. Inr (base @ str_of ''/'' @ s)), as_completed = (\<lambda>n rs. rev rs)\<rparr>"

text \<open>What one completed future adds to \<open>found\<close>, and whether handling it raises.\<close>

fun contribution :: "parsed_inst \<Rightarrow> pyexc + bytes option \<Rightarrow> pystr set" where
  "contribution parsed (Inr (Some js)) =
     (if js = [] then {} else (case extract_urls_from_js parsed js of Inr urls \<Rightarrow> set urls | Inl e \<Rightarrow> {}))"
| "contribution parsed r = {}"

fun handled :: "parsed_inst \<Rightarrow> pyexc + bytes option \<Rightarrow> bool" where
  "handled parsed (Inl e) = False"
| "handled parsed (Inr None) = True"
| "handled parsed (Inr (Some js)) = (js = [] \<or> (\<exists>urls. extract_urls_from_js parsed js = Inr urls))"

definition example_loader :: loader where
  "example_loader =
     \<lparr>exec_file_module = (\<lambda>p. Inl (Exc ''FileNotFoundError'')),
      import_module = (\<lambda>p. Inl (Exc ''ModuleNotFoundError''))\<rparr>"

section \<open>The Normalizer\<close>

lemma dropWhile_id: "(xs \<noteq> [] \<Longrightarrow> \<not> P (hd xs)) \<Longrightarrow> dropWhile P xs = xs"
  by (cases xs) auto

lemma rstrip_take: "rev (dropWhile P (rev t)) = take (length t - length (takeWhile P (rev t))) t"
  by (simp add: dropWhile_eq_drop rev_drop)

lemma strip_ends:
  assumes "strip s \<noteq> []"
  shows "\<not> isspace (hd (strip s))" and "\<not> isspace (last (strip s))"
proof -
  let ?t = "dropWhile isspace s"
  have ne: "dropWhile isspace (rev ?t) \<noteq> []" using assms by (simp add: strip_def)
  then have "\<not> isspace (hd (dropWhile isspace (rev ?t)))" by (rule hd_dropWhile)
  then show "\<not> isspace (last (strip s))" using ne by (simp add: strip_def last_rev)
  have tne: "?t \<noteq> []" using ne by (auto dest: set_dropWhileD)
  then have h: "\<not> isspace (hd ?t)" by (rule hd_dropWhile)
  define n where "n = length ?t - length (takeWhile isspace (rev ?t))"
  have e: "strip s = take n ?t"
    unfolding strip_def n_def by (rule rstrip_take)
  with assms have "0 < n" by (cases n) simp_all
  then have "hd (take n ?t) = hd ?t" by (rule hd_take)
  with h e show "\<not> isspace (hd (strip s))" by simp
qed

lemma strip_fixed:
  assumes "s \<noteq> [] \<Longrightarrow> \<not> isspace (hd s) \<and> \<not> isspace (last s)"
  shows "strip s = s"
proof (cases "s = []")
  case True then show ?thesis by (simp add: strip_def)
next
  case False
  with assms have a: "\<not> isspace (hd s)" and b: "\<not> isspace (last s)" by auto
  have 1: "dropWhile isspace s = s" using a by (simp add: dropWhile_id)
  have 2: "dropWhile isspace (rev s) = rev s" using b False by (simp add: dropWhile_id hd_rev)
  show ?thesis by (simp add: strip_def 1 2)
qed

lemma strip_idem: "strip (strip s) = strip s"
  by (rule strip_fixed) (simp add: strip_ends)

lemma clean_set_list:
  "clean (set xs) = sort (remdups (map strip (filter (\<lambda>p. strip p \<noteq> []) xs)))"
proof -
  have "strip ` {p \<in> set xs. strip p \<noteq> []} = set (map strip (filter (\<lambda>p. strip p \<noteq> []) xs))"
    by auto
  then show ?thesis unfolding clean_def by (simp only: sorted_list_of_set_sort_remdups)
qed

lemma set_clean:
  assumes "finite paths"
  shows "set (clean paths) = strip ` {p \<in> paths. strip p \<noteq> []}"
proof -
  have "finite (strip ` {p \<in> paths. strip p \<noteq> []})" using assms by simp
  then show ?thesis unfolding clean_def by (rule set_sorted_list_of_set)
qed

lemma sorted_clean: "sorted (clean paths)"
  unfolding clean_def by (rule sorted_sorted_list_of_set)

lemma distinct_clean: "distinct (clean paths)"
  unfolding clean_def by (rule distinct_sorted_list_of_set)

lemma clean_members:
  assumes "finite paths" and "m \<in> set (clean paths)"
  shows "strip m = m" and "m \<noteq> []" and "\<not> isspace (hd m)" and "\<not> isspace (last m)"
proof -
  from assms obtain p where p: "m = strip p" "strip p \<noteq> []"
    unfolding set_clean [OF assms(1)] by blast
  show "strip m = m" unfolding p by (rule strip_idem)
  show "m \<noteq> []" unfolding p by (rule p(2))
  show "\<not> isspace (hd m)" unfolding p using p(2) by (rule strip_ends)
  show "\<not> isspace (last m)" unfolding p using p(2) by (rule strip_ends)
qed


lemma clean_example:
  "clean (set [str_of '' /b  '', str_of ''/a'', str_of ''   '', str_of ''/b''])
     = [str_of ''/a'', str_of ''/b'']"
  by (subst clean_set_list) (simp add: strip_def isspace_def str_of_def)



text \<open>
  Claim C1. For every (finite) input set of strings, \<open>clean\<close> returns a list that is sorted
  ascending in the lexicographic order of code points, holds no string twice and never the
  empty string, and whose members are trimmed: stripping a member changes nothing, and
  neither its first nor its last character is white space. Its members are exactly the
  stripped non-blank members of the input. The result depends on the set alone: two
  lists with the same members, in whatever order they were inserted, give the same result.
\<close>

theorem clean_normalizes:
  assumes "finite paths"
  shows "sorted (clean paths) \<and> distinct (clean paths) \<and> [] \<notin> set (clean paths)
       \<and> (\<forall>m \<in> set (clean paths). strip m = m \<and> \<not> isspace (hd m) \<and> \<not> isspace (last m))
       \<and> set (clean paths) = strip ` {p \<in> paths. strip p \<noteq> []}
       \<and> (\<forall>xs ys. set xs = paths \<and> set ys = paths \<longrightarrow> clean (set xs) = clean (set ys))"
proof (intro conjI ballI allI impI)
  show "sorted (clean paths)" by (rule sorted_clean)
  show "distinct (clean paths)" by (rule distinct_clean)
  show "[] \<notin> set (clean paths)" using clean_members(2) [OF assms] by blast
  show "set (clean paths) = strip ` {p \<in> paths. strip p \<noteq> []}" using assms by (rule set_clean)
next
  fix m assume "m \<in> set (clean paths)"
  with assms show "strip m = m" and "\<not> isspace (hd m)" and "\<not> isspace (last m)"
    by (rule clean_members)+
next
  fix xs ys :: "pystr list" assume "set xs = paths \<and> set ys = paths"
  then show "clean (set xs) = clean (set ys)" by simp
qed




theorem clean_normalizes_witness:
  "finite (set [str_of '' /b  '', str_of ''/a'', str_of ''   '', str_of ''/b''])
   \<and> sorted (clean (set [str_of '' /b  '', str_of ''/a'', str_of ''   '', str_of ''/b'']))
   \<and> distinct (clean (set [str_of '' /b  '', str_of ''/a'', str_of ''   '', str_of ''/b'']))
   \<and> [] \<notin> set (clean (set [str_of '' /b  '', str_of ''/a'', str_of ''   '', str_of ''/b'']))"
proof -
  let ?xs = "[str_of '' /b  '', str_of ''/a'', str_of ''   '', str_of ''/b'']"
  have f: "finite (set ?xs)" by (rule finite_set)
  note c = clean_normalizes [OF f]
  show ?thesis
    using f c [THEN conjunct1] c [THEN conjunct2, THEN conjunct1]
      c [THEN conjunct2, THEN conjunct2, THEN conjunct1]
    by (intro conjI)
qed


text \<open>
  Claim C9. The Normalizer is idempotent: applying \<open>clean\<close> to the set of members of
  \<open>clean s\<close> gives \<open>clean s\<close> again.
\<close>

theorem clean_idempotent:
  assumes "finite s"
  shows "clean (set (clean s)) = clean s"
proof -
  define A where "A = strip ` {p \<in> s. strip p \<noteq> []}"
  have A: "set (clean s) = A" unfolding A_def using assms by (rule set_clean)
  have B: "strip y = y \<and> strip y \<noteq> []" if "y \<in> A" for y
  proof -
    from that have m: "y \<in> set (clean s)" unfolding A .
    from clean_members(1) [OF assms m] clean_members(2) [OF assms m]
    show ?thesis by simp
  qed
  have F: "{p \<in> A. strip p \<noteq> []} = A"
    using B by blast
  have "strip ` A = id ` A"
    by (rule image_cong) (use B in simp_all)
  then have G: "strip ` {p \<in> A. strip p \<noteq> []} = A"
    unfolding F by simp
  have "clean (set (clean s)) = clean A"
    by (simp only: A)
  also have "\<dots> = sorted_list_of_set A"
    by (simp only: clean_def G)
  also have "\<dots> = clean s"
    unfolding clean_def A_def ..
  finally show ?thesis .
qed

theorem clean_idempotent_witness:
  "finite (set [str_of '' /b  '', str_of ''/a'', str_of ''   '', str_of ''/b'']) \<and>
   clean (set (clean (set [str_of '' /b  '', str_of ''/a'', str_of ''   '', str_of ''/b''])))
     = [str_of ''/a'', str_of ''/b'']"
proof -
  let ?xs = "[str_of '' /b  '', str_of ''/a'', str_of ''   '', str_of ''/b'']"
  have f: "finite (set ?xs)" by (rule finite_set)
  have "clean (set (clean (set ?xs))) = clean (set ?xs)"
    using f by (rule clean_idempotent)
  also have "\<dots> = [str_of ''/a'', str_of ''/b'']" by (rule clean_example)
  finally show ?thesis using f by (intro conjI)
qed

section \<open>The Fetcher\<close>

lemma request_failed_Exc: "request_failed (Exc m) = Inr None"
  by simp

lemma raise_for_status_cases:
  "raise_for_status resp = None \<longleftrightarrow> \<not> (400 \<le> status_code resp \<and> status_code resp < 600)"
  "raise_for_status resp = Some e
     \<longleftrightarrow> 400 \<le> status_code resp \<and> status_code resp < 600 \<and> e = Exc ''HTTPError''"
  by (auto simp add: raise_for_status_def)

text \<open>
  A response with the status code 300, which is not a success code, is not rejected by
  \<open>raise_for_status\<close>: \<open>get\<close> returns its payload.
\<close>

theorem DefaultRequests_get_status_300:
  "session_get example_lib (session_headers (DefaultRequests_init example_lib DEFAULT_TIMEOUT None))
     (str_of ''http://host/choices'') (timeout (DefaultRequests_init example_lib DEFAULT_TIMEOUT None))
     False = Inr \<lparr>status_code = 300, content = str_of ''choices''\<rparr>
   \<and> \<not> success_status 300
   \<and> DefaultRequests_get example_lib (DefaultRequests_init example_lib DEFAULT_TIMEOUT None)
        (str_of ''http://host/choices'') False = Inr (Some (str_of ''choices''))"
  by (simp add: DefaultRequests_get_def example_lib_def raise_for_status_def success_status_def
      str_of_def)

text \<open>
  Claim C6. Provided that switching the warnings off does not itself raise something other
  than an \<open>Exception\<close>, \<open>DefaultRequests.get\<close> returns \<open>None\<close> whenever the underlying
  request raises a transport error (a timeout included) and whenever the status code of
  the response lies between 400 and 599, the codes \<open>raise_for_status\<close> rejects. Whenever
  the request returns a response with any other status code (and the warnings were
  switched off without an error), it returns the content of that response, also for a
  code outside the success class 2xx. So a payload is returned only for a response whose
  status code is not between 400 and 599, and it is the content of that response. No
  \<open>Exception\<close> is ever raised to the caller.
\<close>

theorem DefaultRequests_get_failure:
  assumes "\<not> verify_ssl \<Longrightarrow> disable_warnings lib = None \<or> (\<exists>m. disable_warnings lib = Some (Exc m))"
  shows "(session_get lib (session_headers self) u (timeout self) verify_ssl = Inl (Exc m)
            \<longrightarrow> DefaultRequests_get lib self u verify_ssl = Inr None)
       \<and> (session_get lib (session_headers self) u (timeout self) verify_ssl = Inr resp
            \<and> 400 \<le> status_code resp \<and> status_code resp < 600
            \<longrightarrow> DefaultRequests_get lib self u verify_ssl = Inr None)
       \<and> (session_get lib (session_headers self) u (timeout self) verify_ssl = Inr resp
            \<and> \<not> (400 \<le> status_code resp \<and> status_code resp < 600)
            \<and> (verify_ssl \<or> disable_warnings lib = None)
            \<longrightarrow> DefaultRequests_get lib self u verify_ssl = Inr (Some (content resp)))
       \<and> (DefaultRequests_get lib self u verify_ssl = Inr (Some c)
            \<longrightarrow> (\<exists>r. session_get lib (session_headers self) u (timeout self) verify_ssl = Inr r
                     \<and> \<not> (400 \<le> status_code r \<and> status_code r < 600) \<and> content r = c))
       \<and> (\<forall>e. DefaultRequests_get lib self u verify_ssl \<noteq> Inl (Exc e))"
proof -
  consider (ok) "(if \<not> verify_ssl then disable_warnings lib else None) = None"
    | (bad) m' where "(if \<not> verify_ssl then disable_warnings lib else None) = Some (Exc m')"
    using assms by (cases verify_ssl) auto
  then show ?thesis
  proof cases
    case ok
    show ?thesis
      unfolding DefaultRequests_get_def ok
      by (auto simp add: raise_for_status_cases
          split: sum.splits option.splits pyexc.splits elim: request_failed.elims)
  next
    case bad
    then have "\<not> (verify_ssl \<or> disable_warnings lib = None)"
      by (cases verify_ssl) auto
    then show ?thesis
      unfolding DefaultRequests_get_def bad by simp
  qed
qed

theorem DefaultRequests_get_failure_witness:
  "DefaultRequests_get example_lib (DefaultRequests_init example_lib DEFAULT_TIMEOUT None)
     (str_of ''http://down'') False = Inr None
   \<and> DefaultRequests_get example_lib (DefaultRequests_init example_lib DEFAULT_TIMEOUT None)
       (str_of ''http://host/missing'') False = Inr None
   \<and> DefaultRequests_get example_lib (DefaultRequests_init example_lib DEFAULT_TIMEOUT None)
       (str_of ''http://host/page'') False = Inr (Some (str_of ''ok''))"
proof -
  let ?self = "DefaultRequests_init example_lib DEFAULT_TIMEOUT None"
  have h: "\<not> False \<Longrightarrow> disable_warnings example_lib = None
             \<or> (\<exists>m. disable_warnings example_lib = Some (Exc m))"
    by (simp add: example_lib_def)
  have s1: "session_get example_lib (session_headers ?self) (str_of ''http://down'')
              (timeout ?self) False = Inl (Exc ''ConnectTimeout'')"
    by (simp add: example_lib_def)
  have s2: "session_get example_lib (session_headers ?self) (str_of ''http://host/missing'')
              (timeout ?self) False = Inr \<lparr>status_code = 404, content = str_of ''gone''\<rparr>
            \<and> 400 \<le> status_code \<lparr>status_code = 404, content = str_of ''gone''\<rparr>
            \<and> status_code \<lparr>status_code = 404, content = str_of ''gone''\<rparr> < 600"
    by (simp add: example_lib_def str_of_def)
  have s3: "session_get example_lib (session_headers ?self) (str_of ''http://host/page'')
              (timeout ?self) False = Inr \<lparr>status_code = 200, content = str_of ''ok''\<rparr>
            \<and> \<not> (400 \<le> status_code \<lparr>status_code = 200, content = str_of ''ok''\<rparr>
                 \<and> status_code \<lparr>status_code = 200, content = str_of ''ok''\<rparr> < 600)
            \<and> (False \<or> disable_warnings example_lib = None)"
    by (simp add: example_lib_def str_of_def)
  have 1: "DefaultRequests_get example_lib ?self (str_of ''http://down'') False = Inr None"
    using DefaultRequests_get_failure [OF h, THEN conjunct1] s1 by (rule mp)
  have 2: "DefaultRequests_get example_lib ?self (str_of ''http://host/missing'') False = Inr None"
    using DefaultRequests_get_failure [OF h, THEN conjunct2, THEN conjunct1] s2 by (rule mp)
  have "DefaultRequests_get example_lib ?self (str_of ''http://host/page'') False
          = Inr (Some (content \<lparr>status_code = 200, content = str_of ''ok''\<rparr>))"
    using DefaultRequests_get_failure [OF h, THEN conjunct2, THEN conjunct2, THEN conjunct1] s3
    by (rule mp)
  then have 3: "DefaultRequests_get example_lib ?self (str_of ''http://host/page'') False
          = Inr (Some (str_of ''ok''))"
    by simp
  from 1 2 3 show ?thesis by (intro conjI)
qed

section \<open>The ScriptScanner\<close>

subsection \<open>What the matcher accepts\<close>

text \<open>
  The texts a pattern can match at the head of \<open>s\<close> are described piece by piece, and
  shown to depend on the matched text alone: the patterns have no look-ahead, and the
  order of backtracking decides which match is reported, not which matches exist.
\<close>

lemma matched_Lit: "w \<in> matched (Lit l) s \<longleftrightarrow> w = l \<and> take (length l) s = l"
  by (auto simp: matched_def)

lemma matched_Cls: "w \<in> matched (Cls k) s \<longleftrightarrow> (\<exists>c t. s = c # t \<and> cls_has k c \<and> w = [c])"
  by (cases s) (auto simp: matched_def)

lemma matched_Alt: "w \<in> matched (Alt a b) s \<longleftrightarrow> w \<in> matched a s \<or> w \<in> matched b s"
  by (auto simp: matched_def)

lemma matched_Empty: "w \<in> matched Empty s \<longleftrightarrow> w = []"
  by (auto simp: matched_def)

lemma matched_Grp: "w \<in> matched (Grp n r) s \<longleftrightarrow> w \<in> matched r s"
  by (force simp: matched_def)

lemma matched_Seq:
  "w \<in> matched (Seq a b) s \<longleftrightarrow>
     (\<exists>w1 w2. w = w1 @ w2 \<and> w1 \<in> matched a s \<and> w2 \<in> matched b (drop (length w1) s))"
  by (force simp: matched_def)

lemma take_self_append: "take (length w) s = w \<longleftrightarrow> (\<exists>t. s = w @ t)"
proof
  assume "take (length w) s = w"
  then have "s = w @ drop (length w) s" by (metis append_take_drop_id)
  then show "\<exists>t. s = w @ t" ..
next
  assume "\<exists>t. s = w @ t"
  then show "take (length w) s = w" by auto
qed

lemma run_of_prefix:
  assumes "\<forall>x \<in> set w. P x"
  shows "takeWhile P (w @ t) = w @ takeWhile P t"
  using assms by (induction w) auto

lemma matched_Rep:
  "w \<in> matched (Rep k lo hi) s \<longleftrightarrow>
     take (length w) s = w \<and> (\<forall>x \<in> set w. cls_has k x) \<and> lo \<le> length w
     \<and> (\<forall>h. hi = Some h \<longrightarrow> length w \<le> h)"
proof -
  define bounded where "bounded = (case hi of None \<Rightarrow> s | Some h \<Rightarrow> take h s)"
  define run where "run = takeWhile (cls_has k) bounded"
  have m: "w \<in> matched (Rep k lo hi) s \<longleftrightarrow> (\<exists>i. lo \<le> i \<and> i \<le> length run \<and> w = take i run)"
    unfolding matched_def run_def bounded_def by (auto simp: Let_def image_iff)
  have run_pre: "\<exists>t. bounded = run @ t"
    unfolding run_def by (metis takeWhile_dropWhile_id)
  have bounded_pre: "\<exists>t. s = bounded @ t"
    unfolding bounded_def by (cases hi) (auto intro: append_take_drop_id [symmetric])
  have run_all: "\<forall>x \<in> set run. cls_has k x"
    unfolding run_def by (auto dest: set_takeWhileD)
  have run_len: "hi = Some h \<Longrightarrow> length run \<le> h" for h
    unfolding run_def bounded_def by (simp add: le_trans [OF length_takeWhile_le])
  from run_pre bounded_pre obtain t where st: "s = run @ t" by auto
  show ?thesis
  proof
    assume "w \<in> matched (Rep k lo hi) s"
    with m obtain i where i: "lo \<le> i" "i \<le> length run" "w = take i run" by blast
    have lw: "length w = i" using i by simp
    have "take (length w) s = w" unfolding lw st using i by simp
    moreover have "\<forall>x \<in> set w. cls_has k x"
      using run_all i(3) by (auto dest: in_set_takeD)
    moreover have "lo \<le> length w" using lw i(1) by simp
    moreover have "\<forall>h. hi = Some h \<longrightarrow> length w \<le> h"
      using run_len lw i(2) by (auto intro: le_trans)
    ultimately show "take (length w) s = w \<and> (\<forall>x \<in> set w. cls_has k x) \<and> lo \<le> length w
       \<and> (\<forall>h. hi = Some h \<longrightarrow> length w \<le> h)" by blast
  next
    assume a: "take (length w) s = w \<and> (\<forall>x \<in> set w. cls_has k x) \<and> lo \<le> length w
       \<and> (\<forall>h. hi = Some h \<longrightarrow> length w \<le> h)"
    then obtain t where t: "s = w @ t" by (auto simp: take_self_append)
    have "\<exists>t'. bounded = w @ t'"
    proof (cases hi)
      case None
      then show ?thesis unfolding bounded_def using t by simp
    next
      case (Some h)
      with a have "length w \<le> h" by simp
      then show ?thesis unfolding bounded_def Some using t by simp
    qed
    then obtain t' where t': "bounded = w @ t'" ..
    have "run = w @ takeWhile (cls_has k) t'"
      unfolding run_def t' using a by (intro run_of_prefix) simp
    then have "length w \<le> length run" and "w = take (length w) run" by simp_all
    with a m show "w \<in> matched (Rep k lo hi) s" by blast
  qed
qed

lemma take_append_split:
  "take (length (w1 @ w2)) s = w1 @ w2
     \<longleftrightarrow> take (length w1) s = w1 \<and> take (length w2) (drop (length w1) s) = w2"
proof
  assume "take (length (w1 @ w2)) s = w1 @ w2"
  then obtain t where "s = (w1 @ w2) @ t" unfolding take_self_append ..
  then show "take (length w1) s = w1 \<and> take (length w2) (drop (length w1) s) = w2" by simp
next
  assume a: "take (length w1) s = w1 \<and> take (length w2) (drop (length w1) s) = w2"
  then obtain t where t: "s = w1 @ t" unfolding take_self_append by blast
  with a have "take (length w2) t = w2" by simp
  then obtain t' where "t = w2 @ t'" unfolding take_self_append ..
  with t show "take (length (w1 @ w2)) s = w1 @ w2" by simp
qed

lemma split_self:
  "w = w1 @ w2 \<Longrightarrow> take (length w1) w = w1 \<and> take (length w2) (drop (length w1) w) = w2"
  by simp

lemma matched_local:
  "w \<in> matched r s \<longleftrightarrow> take (length w) s = w \<and> w \<in> matched r w"
proof (induction r arbitrary: w s)
  case (Lit l)
  show ?case unfolding matched_Lit by auto
next
  case (Cls k)
  show ?case unfolding matched_Cls by (cases s) auto
next
  case (Rep k lo hi)
  show ?case unfolding matched_Rep by auto
next
  case (Seq a b)
  have "w \<in> matched (Seq a b) s \<longleftrightarrow>
        (\<exists>w1 w2. w = w1 @ w2 \<and> take (length w1) s = w1 \<and> w1 \<in> matched a w1
            \<and> take (length w2) (drop (length w1) s) = w2 \<and> w2 \<in> matched b w2)"
    unfolding matched_Seq
    using Seq.IH(1) [of _ s] Seq.IH(2) by blast
  also have "\<dots> \<longleftrightarrow> take (length w) s = w
        \<and> (\<exists>w1 w2. w = w1 @ w2 \<and> w1 \<in> matched a w1 \<and> w2 \<in> matched b w2)"
    using take_append_split [of _ _ s] by blast
  also have "(\<exists>w1 w2. w = w1 @ w2 \<and> w1 \<in> matched a w1 \<and> w2 \<in> matched b w2)
        \<longleftrightarrow> w \<in> matched (Seq a b) w"
  proof -
    have "w \<in> matched (Seq a b) w \<longleftrightarrow>
        (\<exists>w1 w2. w = w1 @ w2 \<and> take (length w1) w = w1 \<and> w1 \<in> matched a w1
            \<and> take (length w2) (drop (length w1) w) = w2 \<and> w2 \<in> matched b w2)"
      unfolding matched_Seq
      using Seq.IH(1) [of _ w] Seq.IH(2) by blast
    also have "\<dots> \<longleftrightarrow> (\<exists>w1 w2. w = w1 @ w2 \<and> w1 \<in> matched a w1 \<and> w2 \<in> matched b w2)"
      using split_self [of w] by blast
    finally show ?thesis by simp
  qed
  finally show ?case .
next
  case (Alt a b)
  show ?case unfolding matched_Alt using Alt.IH(1) [of w s] Alt.IH(2) [of w s] by blast
next
  case Empty
  show ?case unfolding matched_Empty by auto
next
  case (Grp n r)
  show ?case unfolding matched_Grp by (rule Grp.IH)
qed

lemma matched_accepts: "w \<in> matched r s \<longleftrightarrow> take (length w) s = w \<and> accepts r w"
  unfolding accepts_def by (rule matched_local)

lemma accepts_Lit: "accepts (Lit l) w \<longleftrightarrow> w = l"
  unfolding accepts_def matched_Lit by auto

lemma accepts_Cls: "accepts (Cls k) w \<longleftrightarrow> (\<exists>c. w = [c] \<and> cls_has k c)"
  unfolding accepts_def matched_Cls by auto

lemma accepts_Rep:
  "accepts (Rep k lo hi) w \<longleftrightarrow>
     (\<forall>x \<in> set w. cls_has k x) \<and> lo \<le> length w \<and> (\<forall>h. hi = Some h \<longrightarrow> length w \<le> h)"
  unfolding accepts_def matched_Rep by auto

lemma accepts_Seq:
  "accepts (Seq a b) w \<longleftrightarrow> (\<exists>w1 w2. w = w1 @ w2 \<and> accepts a w1 \<and> accepts b w2)"
proof -
  have "accepts (Seq a b) w \<longleftrightarrow>
      (\<exists>w1 w2. w = w1 @ w2 \<and> take (length w1) w = w1 \<and> accepts a w1
          \<and> take (length w2) (drop (length w1) w) = w2 \<and> accepts b w2)"
    unfolding accepts_def [of "Seq a b"] matched_Seq
    using matched_accepts [of _ a w] matched_accepts [of _ b] by blast
  also have "\<dots> \<longleftrightarrow> (\<exists>w1 w2. w = w1 @ w2 \<and> accepts a w1 \<and> accepts b w2)"
    using split_self [of w] by blast
  finally show ?thesis .
qed

lemma accepts_Alt: "accepts (Alt a b) w \<longleftrightarrow> accepts a w \<or> accepts b w"
  unfolding accepts_def matched_Alt ..

lemma accepts_Empty: "accepts Empty w \<longleftrightarrow> w = []"
  unfolding accepts_def matched_Empty ..

lemma accepts_Grp: "accepts (Grp n r) w \<longleftrightarrow> accepts r w"
  unfolding accepts_def matched_Grp ..

lemma accepts_may_contain: "accepts r w \<Longrightarrow> x \<in> set w \<Longrightarrow> may_contain r x"
proof (induction r arbitrary: w)
  case (Seq a b)
  from Seq.prems(1) obtain w1 w2 where w: "w = w1 @ w2" "accepts a w1" "accepts b w2"
    unfolding accepts_Seq by blast
  from Seq.prems(2) w(1) have "x \<in> set w1 \<or> x \<in> set w2" by simp
  then show ?case using Seq.IH(1) [OF w(2)] Seq.IH(2) [OF w(3)] by auto
next
  case (Alt a b)
  from Alt.prems(1) have "accepts a w \<or> accepts b w" unfolding accepts_Alt .
  then show ?case using Alt.IH(1) [OF _ Alt.prems(2)] Alt.IH(2) [OF _ Alt.prems(2)] by auto
qed (auto simp add: accepts_Lit accepts_Cls accepts_Rep accepts_Empty accepts_Grp)

subsection \<open>The matches of RULE and the scanner\<close>

text \<open>
  Every match of \<open>RULE\<close> is a quote, a quote-free text that one of the three shapes
  accepts and that group 1 records, and the next quote of the text. The scanner
  therefore skips what is not a quote, and a match at a quote is decided by the text up
  to the next quote.
\<close>

lemma in_ms_Seq:
  "(w, g) \<in> set (ms (Seq a b) s) \<longleftrightarrow>
     (\<exists>w1 g1 w2 g2. (w1, g1) \<in> set (ms a s) \<and> (w2, g2) \<in> set (ms b (drop (length w1) s))
        \<and> w = w1 @ w2 \<and> g = g1 ++ g2)"
  by force

lemma in_ms_Grp:
  "(w, g) \<in> set (ms (Grp n r) s) \<longleftrightarrow> (\<exists>g0. (w, g0) \<in> set (ms r s) \<and> g = g0(n \<mapsto> w))"
  by force

lemma in_ms_delimiter:
  "(w, g) \<in> set (ms delimiter s) \<longleftrightarrow> (\<exists>q t. s = q # t \<and> is_quote q \<and> w = [q] \<and> g = Map.empty)"
  by (cases s) (auto simp add: delimiter_def is_quote_def)

lemma in_ms_matched: "(w, g) \<in> set (ms r s) \<Longrightarrow> w \<in> matched r s"
  unfolding matched_def by force

lemma matched_in_ms: "w \<in> matched r s \<Longrightarrow> \<exists>g. (w, g) \<in> set (ms r s)"
  unfolding matched_def by force

lemma alternatives_no_quote: "\<not> may_contain alternatives dq" "\<not> may_contain alternatives sq"
  by (simp_all add: alternatives_def branch1_def branch2_def branch3_def extension_def
      path_first_def path_rest_def segment_char_def filename_char_def letter_def
      remainder_start_def remainder_char_def ones_def str_of_def dq_def sq_def)

lemma alternatives_quote_free: "accepts alternatives m \<Longrightarrow> quote_free m"
  unfolding quote_free_def using accepts_may_contain alternatives_no_quote by blast

lemma RULE_match_shape:
  assumes "(w, g) \<in> set (ms RULE s)"
  shows "\<exists>q1 m q2 rest. s = q1 # m @ q2 # rest \<and> w = q1 # m @ [q2] \<and> is_quote q1 \<and> is_quote q2
           \<and> quote_free m \<and> accepts alternatives m \<and> g 1 = Some m"
proof -
  from assms obtain w1 g1 w' g' where
    a: "(w1, g1) \<in> set (ms delimiter s)"
    and b: "(w', g') \<in> set (ms (Seq (Grp 1 alternatives) delimiter) (drop (length w1) s))"
    and w: "w = w1 @ w'" and g: "g = g1 ++ g'"
    unfolding RULE_def in_ms_Seq [of w g] by blast
  from a obtain q1 t where s: "s = q1 # t" and q1: "is_quote q1" and w1: "w1 = [q1]"
    and g1: "g1 = Map.empty"
    unfolding in_ms_delimiter by blast
  from b have b': "(w', g') \<in> set (ms (Seq (Grp 1 alternatives) delimiter) t)"
    unfolding w1 s by simp
  from b' obtain m gm w2 g2 where
    c: "(m, gm) \<in> set (ms (Grp 1 alternatives) t)"
    and d: "(w2, g2) \<in> set (ms delimiter (drop (length m) t))"
    and w': "w' = m @ w2" and g': "g' = gm ++ g2"
    unfolding in_ms_Seq [of w' g'] by blast
  from c obtain g0 where e: "(m, g0) \<in> set (ms alternatives t)" and gm: "gm = g0(1 \<mapsto> m)"
    unfolding in_ms_Grp by blast
  from d obtain q2 rest where r: "drop (length m) t = q2 # rest" and q2: "is_quote q2"
    and w2: "w2 = [q2]" and g2: "g2 = Map.empty"
    unfolding in_ms_delimiter by blast
  from e have "m \<in> matched alternatives t" by (rule in_ms_matched)
  then have tm: "take (length m) t = m" and am: "accepts alternatives m"
    unfolding matched_accepts by simp_all
  have "t = take (length m) t @ drop (length m) t" by simp
  then have t: "t = m @ q2 # rest" unfolding tm r .
  have "g 1 = Some m" unfolding g g1 g' gm g2 by simp
  moreover have "quote_free m" using am by (rule alternatives_quote_free)
  ultimately show ?thesis using s t w w1 w' w2 q1 q2 am by auto
qed

lemma RULE_match_intro:
  assumes "is_quote q1" and "is_quote q2" and "accepts alternatives m"
  shows "\<exists>g. (q1 # m @ [q2], g) \<in> set (ms RULE (q1 # m @ q2 # rest))"
proof -
  have "m \<in> matched alternatives (m @ q2 # rest)"
    unfolding matched_accepts using assms(3) by simp
  then obtain g0 where e: "(m, g0) \<in> set (ms alternatives (m @ q2 # rest))"
    using matched_in_ms by blast
  then have c: "(m, g0(1 \<mapsto> m)) \<in> set (ms (Grp 1 alternatives) (m @ q2 # rest))"
    unfolding in_ms_Grp by blast
  have d: "([q2], Map.empty) \<in> set (ms delimiter (drop (length m) (m @ q2 # rest)))"
    unfolding in_ms_delimiter using assms(2) by simp
  from c d have b: "(m @ [q2], g0(1 \<mapsto> m) ++ Map.empty)
      \<in> set (ms (Seq (Grp 1 alternatives) delimiter) (m @ q2 # rest))"
    unfolding in_ms_Seq by blast
  have a: "([q1], Map.empty) \<in> set (ms delimiter (q1 # m @ q2 # rest))"
    unfolding in_ms_delimiter using assms(1) by simp
  from b have b': "(m @ [q2], g0(1 \<mapsto> m) ++ Map.empty)
      \<in> set (ms (Seq (Grp 1 alternatives) delimiter) (drop (length [q1]) (q1 # m @ q2 # rest)))"
    by simp
  from a b' have "([q1] @ (m @ [q2]), Map.empty ++ (g0(1 \<mapsto> m) ++ Map.empty))
      \<in> set (ms RULE (q1 # m @ q2 # rest))"
    unfolding RULE_def in_ms_Seq by blast
  then show ?thesis by auto
qed

lemma first_quote_unique:
  assumes "quote_free m" and "quote_free m'" and "is_quote q" and "is_quote q'"
    and "m @ q # r = m' @ q' # r'"
  shows "m = m' \<and> q = q' \<and> r = r'"
proof -
  have 1: "takeWhile (\<lambda>x. \<not> is_quote x) (m @ q # r) = m"
    using assms(1,3) by (induction m) (auto simp add: quote_free_def is_quote_def)
  have 2: "takeWhile (\<lambda>x. \<not> is_quote x) (m' @ q' # r') = m'"
    using assms(2,4) by (induction m') (auto simp add: quote_free_def is_quote_def)
  from 1 2 assms(5) have "m = m'" by simp
  with assms(5) show ?thesis by simp
qed

lemma RULE_match_literal:
  assumes "is_quote q2" and "quote_free lit" and "(w, g) \<in> set (ms RULE (q1 # lit @ q2 # post))"
  shows "w = q1 # lit @ [q2] \<and> g 1 = Some lit \<and> accepts alternatives lit \<and> is_quote q1"
proof -
  from RULE_match_shape [OF assms(3)] obtain q1' m q2' rest where
    s: "q1 # lit @ q2 # post = q1' # m @ q2' # rest" and w: "w = q1' # m @ [q2']"
    and q: "is_quote q1'" "is_quote q2'" and m: "quote_free m" "accepts alternatives m"
    and g: "g 1 = Some m"
    by blast
  from s have 1: "q1 = q1'" and 2: "lit @ q2 # post = m @ q2' # rest" by simp_all
  from first_quote_unique [OF assms(2) m(1) assms(1) q(2) 2]
  have "lit = m" "q2 = q2'" by simp_all
  then show ?thesis using w g m q 1 by simp
qed

lemma RULE_no_match:
  assumes "\<not> is_quote c"
  shows "ms RULE (c # cs) = []"
proof (rule ccontr)
  assume "ms RULE (c # cs) \<noteq> []"
  then obtain w g where "(w, g) \<in> set (ms RULE (c # cs))" by (cases "ms RULE (c # cs)") auto
  from RULE_match_shape [OF this] assms show False by auto
qed

lemma RULE_no_match_Nil: "ms RULE [] = []"
proof (rule ccontr)
  assume "ms RULE [] \<noteq> []"
  then obtain w g where "(w, g) \<in> set (ms RULE [])" by (cases "ms RULE []") auto
  from RULE_match_shape [OF this] show False by auto
qed

lemma finditer_Nil: "finditer k [] = []"
  by (simp add: RULE_no_match_Nil)

lemma finditer_skip: "finditer (length a) (a @ b) = finditer 0 b"
  by (induction a) simp_all

lemma finditer_quote_free: "quote_free pre \<Longrightarrow> finditer 0 (pre @ s) = finditer 0 s"
proof (induction pre)
  case Nil
  show ?case by simp
next
  case (Cons c pre)
  then have "\<not> is_quote c" and "quote_free pre" by (auto simp add: quote_free_def is_quote_def)
  then show ?case using Cons.IH by (simp add: RULE_no_match)
qed

lemma finditer_literal:
  assumes "is_quote q1" and "is_quote q2" and "accepts alternatives lit"
  shows "\<exists>g. g 1 = Some lit \<and> finditer 0 (q1 # lit @ q2 # post) = g # finditer 0 post"
proof -
  have qf: "quote_free lit" using assms(3) by (rule alternatives_quote_free)
  from RULE_match_intro [OF assms] obtain g0
    where "(q1 # lit @ [q2], g0) \<in> set (ms RULE (q1 # lit @ q2 # post))" by blast
  then obtain w g ms' where h: "ms RULE (q1 # lit @ q2 # post) = (w, g) # ms'"
    by (cases "ms RULE (q1 # lit @ q2 # post)") auto
  then have "(w, g) \<in> set (ms RULE (q1 # lit @ q2 # post))" by simp
  from RULE_match_literal [OF assms(2) qf this]
  have w: "w = q1 # lit @ [q2]" and g: "g 1 = Some lit" by simp_all
  have "finditer 0 (q1 # lit @ q2 # post) = g # finditer (length w - 1) (lit @ q2 # post)"
    using h by simp
  also have "length w - 1 = length (lit @ [q2])" unfolding w by simp
  also have "finditer (length (lit @ [q2])) (lit @ q2 # post) = finditer 0 post"
    using finditer_skip [of "lit @ [q2]" post] by simp
  finally show ?thesis using g by blast
qed

lemma finditer_no_literal:
  assumes "is_quote q2" and "quote_free lit" and "\<not> accepts alternatives lit"
  shows "finditer 0 (q1 # lit @ q2 # post) = finditer 0 (q2 # post)"
proof -
  have "ms RULE (q1 # lit @ q2 # post) = []"
  proof (rule ccontr)
    assume "ms RULE (q1 # lit @ q2 # post) \<noteq> []"
    then obtain w g where "(w, g) \<in> set (ms RULE (q1 # lit @ q2 # post))"
      by (cases "ms RULE (q1 # lit @ q2 # post)") auto
    from RULE_match_literal [OF assms(1,2) this] assms(3) show False by simp
  qed
  then have "finditer 0 (q1 # lit @ q2 # post) = finditer 0 (lit @ q2 # post)" by simp
  also have "\<dots> = finditer 0 (q2 # post)" using assms(2) by (rule finditer_quote_free)
  finally show ?thesis .
qed

lemma findall_literal:
  assumes "quote_free pre" and "is_quote q1" and "is_quote q2" and "accepts alternatives lit"
  shows "findall_group1 (pre @ q1 # lit @ q2 # post) = lit # findall_group1 post"
proof -
  from finditer_literal [OF assms(2,3,4)] obtain g where
    g: "g 1 = Some lit" "finditer 0 (q1 # lit @ q2 # post) = g # finditer 0 post" by blast
  show ?thesis
    unfolding findall_group1_def finditer_quote_free [OF assms(1)] g(2)
    using g(1) by (simp add: match_group_def)
qed

lemma findall_no_literal:
  assumes "quote_free pre" and "is_quote q2" and "quote_free lit" and "\<not> accepts alternatives lit"
  shows "findall_group1 (pre @ q1 # lit @ q2 # post) = findall_group1 (q2 # post)"
proof -
  have "finditer 0 (pre @ q1 # lit @ q2 # post) = finditer 0 (q1 # lit @ q2 # post)"
    using assms(1) by (rule finditer_quote_free)
  also have "\<dots> = finditer 0 (q2 # post)"
    using assms(2,3,4) by (rule finditer_no_literal)
  finally show ?thesis unfolding findall_group1_def by simp
qed

lemma finditer_sound:
  "g \<in> set (finditer k s) \<Longrightarrow> \<exists>w s'. (w, g) \<in> set (ms RULE s')"
proof (induction k s rule: finditer.induct)
  case (1 k)
  from 1 have False unfolding finditer_Nil by simp
  then show ?case ..
next
  case (2 k c cs)
  from 2(2) have "g \<in> set (finditer k cs)" by simp
  then show ?case by (rule 2(1))
next
  case (3 c cs)
  show ?case
  proof (cases "ms RULE (c # cs)")
    case Nil
    with 3 show ?thesis by simp
  next
    case (Cons p ps)
    obtain w g' where p: "p = (w, g')" by (cases p)
    have "g = g' \<or> g \<in> set (finditer (length w - 1) cs)"
      using 3(3) by (simp add: Cons p)
    then show ?thesis
    proof
      assume "g = g'"
      then have "(w, g) \<in> set (ms RULE (c # cs))" unfolding Cons p by simp
      then show ?thesis by blast
    next
      assume "g \<in> set (finditer (length w - 1) cs)"
      with 3(2) [OF Cons p [symmetric]] show ?thesis by blast
    qed
  qed
qed

lemma findall_sound:
  assumes "lit \<in> set (findall_group1 text)"
  shows "accepts alternatives lit \<and> quote_free lit"
proof -
  from assms obtain g where g: "g \<in> set (finditer 0 text)" and l: "lit = the (g 1)"
    unfolding findall_group1_def match_group_def by auto
  from finditer_sound [OF g] obtain w s' where "(w, g) \<in> set (ms RULE s')" by blast
  from RULE_match_shape [OF this] l show ?thesis by auto
qed

subsection \<open>The three shapes\<close>

lemma path_first_denied: "cls_has path_first c \<longleftrightarrow> c \<notin> denied_first"
  by (auto simp add: path_first_def denied_first_def ones_def str_of_def)

lemma path_rest_denied: "(\<forall>x \<in> set r. cls_has path_rest x) \<longleftrightarrow> set r \<inter> denied_rest = {}"
  by (auto simp add: path_rest_def denied_rest_def ones_def str_of_def)

lemma letter_is: "cls_has letter c \<longleftrightarrow> is_letter c"
  by (auto simp add: letter_def is_letter_def)

lemma filename_char_is: "cls_has filename_char c \<longleftrightarrow> is_word_dash c"
  by (auto simp add: filename_char_def is_word_dash_def is_letter_def)

lemma segment_char_is: "cls_has segment_char c \<longleftrightarrow> is_word_dash c \<or> c = 47"
  by (auto simp add: segment_char_def is_word_dash_def is_letter_def)

lemma remainder_start_is: "cls_has remainder_start c \<longleftrightarrow> c = 63 \<or> c = 124 \<or> c = 47"
  by (auto simp add: remainder_start_def ones_def)

lemma remainder_char_is: "(\<forall>x \<in> set r. cls_has remainder_char x) \<longleftrightarrow> remainder_text r"
  by (auto simp add: remainder_char_def remainder_text_def)

lemma accepts_extension: "accepts extension e \<longleftrightarrow> e \<in> set allowlist"
  by (auto simp add: extension_def allowlist_def accepts_Alt accepts_Lit)

lemma accepts_branch1:
  "accepts branch1 w \<longleftrightarrow>
     (\<exists>p c rest. w = p @ c # rest
        \<and> (p = str_of ''/'' \<or> p = str_of ''./'' \<or> p = str_of ''../'')
        \<and> c \<notin> denied_first \<and> rest \<noteq> [] \<and> set rest \<inter> denied_rest = {})"
proof -
  have "accepts branch1 w \<longleftrightarrow>
     (\<exists>w1 w2. w = w1 @ w2
        \<and> (w1 = str_of ''/'' \<or> w1 = str_of ''../'' \<or> w1 = str_of ''./'')
        \<and> (\<exists>w3 w4. w2 = w3 @ w4 \<and> (\<exists>c. w3 = [c] \<and> c \<notin> denied_first)
              \<and> set w4 \<inter> denied_rest = {} \<and> 1 \<le> length w4))"
    unfolding branch1_def accepts_Grp accepts_Seq accepts_Alt accepts_Lit accepts_Cls
      accepts_Rep path_first_denied path_rest_denied
    by simp
  also have "\<dots> \<longleftrightarrow>
     (\<exists>p c rest. w = p @ c # rest
        \<and> (p = str_of ''/'' \<or> p = str_of ''./'' \<or> p = str_of ''../'')
        \<and> c \<notin> denied_first \<and> rest \<noteq> [] \<and> set rest \<inter> denied_rest = {})"
    (is "?L \<longleftrightarrow> ?R")
  proof
    assume ?L
    then obtain w1 w2 w3 w4 c where "w = w1 @ w2"
      "w1 = str_of ''/'' \<or> w1 = str_of ''../'' \<or> w1 = str_of ''./''"
      "w2 = w3 @ w4" "w3 = [c]" "c \<notin> denied_first" "set w4 \<inter> denied_rest = {}" "1 \<le> length w4"
      by blast
    then have "w = w1 @ c # w4 \<and> (w1 = str_of ''/'' \<or> w1 = str_of ''./'' \<or> w1 = str_of ''../'')
        \<and> c \<notin> denied_first \<and> w4 \<noteq> [] \<and> set w4 \<inter> denied_rest = {}"
      by auto
    then show ?R by blast
  next
    assume ?R
    then obtain p c rest where h: "w = p @ c # rest"
      "p = str_of ''/'' \<or> p = str_of ''./'' \<or> p = str_of ''../''"
      "c \<notin> denied_first" "rest \<noteq> []" "set rest \<inter> denied_rest = {}"
      by blast
    then have "w = p @ (c # rest)
        \<and> (p = str_of ''/'' \<or> p = str_of ''../'' \<or> p = str_of ''./'')
        \<and> (\<exists>w3 w4. c # rest = w3 @ w4 \<and> (\<exists>c. w3 = [c] \<and> c \<notin> denied_first)
              \<and> set w4 \<inter> denied_rest = {} \<and> 1 \<le> length w4)"
      by (auto simp add: Suc_le_eq intro: exI [of _ "[c]"])
    then show ?L by blast
  qed
  finally show ?thesis .
qed

lemma accepts_branch3:
  "accepts branch3 w \<longleftrightarrow>
     (\<exists>name ext rem. w = name @ 46 # ext @ rem \<and> filename_text name \<and> ext \<in> set allowlist
        \<and> (rem = [] \<or> (\<exists>r. rem = 63 # r \<and> remainder_text r)))"
proof -
  have "accepts branch3 w \<longleftrightarrow>
     (\<exists>w1 w2. w = w1 @ w2 \<and> ((\<forall>x \<in> set w1. is_word_dash x) \<and> 1 \<le> length w1)
        \<and> (\<exists>w3 w4. w2 = w3 @ w4 \<and> w3 = [46]
              \<and> (\<exists>w5 w6. w4 = w5 @ w6 \<and> w5 \<in> set allowlist
                    \<and> ((\<exists>w7 w8. w6 = w7 @ w8 \<and> w7 = [63] \<and> remainder_text w8) \<or> w6 = []))))"
    unfolding branch3_def accepts_Grp accepts_Seq accepts_Alt accepts_Lit accepts_Rep
      accepts_Empty accepts_extension filename_char_is remainder_char_is
    by (simp add: str_of_def)
  also have "\<dots> \<longleftrightarrow>
     (\<exists>name ext rem. w = name @ 46 # ext @ rem \<and> filename_text name \<and> ext \<in> set allowlist
        \<and> (rem = [] \<or> (\<exists>r. rem = 63 # r \<and> remainder_text r)))"
    (is "?L \<longleftrightarrow> ?R")
  proof
    assume ?L
    then obtain w1 w2 w3 w4 w5 w6 where h: "w = w1 @ w2" "\<forall>x \<in> set w1. is_word_dash x"
      "1 \<le> length w1" "w2 = w3 @ w4" "w3 = [46]" "w4 = w5 @ w6" "w5 \<in> set allowlist"
      "(\<exists>w7 w8. w6 = w7 @ w8 \<and> w7 = [63] \<and> remainder_text w8) \<or> w6 = []"
      by blast
    then have "w = w1 @ 46 # w5 @ w6 \<and> filename_text w1 \<and> w5 \<in> set allowlist
        \<and> (w6 = [] \<or> (\<exists>r. w6 = 63 # r \<and> remainder_text r))"
      unfolding filename_text_def by auto
    then show ?R by blast
  next
    assume ?R
    then obtain name ext rem where h: "w = name @ 46 # ext @ rem" "filename_text name"
      "ext \<in> set allowlist" "rem = [] \<or> (\<exists>r. rem = 63 # r \<and> remainder_text r)"
      by blast
    have a: "(\<exists>w7 w8. rem = w7 @ w8 \<and> w7 = [63] \<and> remainder_text w8) \<or> rem = []"
      using h(4) by auto
    have b: "\<exists>w5 w6. ext @ rem = w5 @ w6 \<and> w5 \<in> set allowlist
        \<and> ((\<exists>w7 w8. w6 = w7 @ w8 \<and> w7 = [63] \<and> remainder_text w8) \<or> w6 = [])"
      using a h(3) by blast
    have c: "\<exists>w3 w4. 46 # ext @ rem = w3 @ w4 \<and> w3 = [46]
        \<and> (\<exists>w5 w6. w4 = w5 @ w6 \<and> w5 \<in> set allowlist
              \<and> ((\<exists>w7 w8. w6 = w7 @ w8 \<and> w7 = [63] \<and> remainder_text w8) \<or> w6 = []))"
      using b by simp
    have d: "(\<forall>x \<in> set name. is_word_dash x) \<and> 1 \<le> length name"
      using h(2) unfolding filename_text_def by (simp add: Suc_le_eq)
    from h(1) c d show ?L by blast
  qed
  finally show ?thesis .
qed

lemma accepts_Seq_Cls:
  "accepts (Seq (Cls k) r) w \<longleftrightarrow> (\<exists>c t. w = c # t \<and> cls_has k c \<and> accepts r t)"
proof
  assume "accepts (Seq (Cls k) r) w"
  then show "\<exists>c t. w = c # t \<and> cls_has k c \<and> accepts r t"
    unfolding accepts_Seq accepts_Cls by auto
next
  assume "\<exists>c t. w = c # t \<and> cls_has k c \<and> accepts r t"
  then obtain c t where "w = c # t" "cls_has k c" "accepts r t" by blast
  then have "w = [c] @ t \<and> accepts (Cls k) [c] \<and> accepts r t" by (simp add: accepts_Cls)
  then show "accepts (Seq (Cls k) r) w" unfolding accepts_Seq by blast
qed

lemma accepts_remainder2:
  "accepts (Alt (Seq (Cls remainder_start) (Rep remainder_char 0 None)) Empty) rem \<longleftrightarrow>
     rem = [] \<or> (\<exists>c r. rem = c # r \<and> (c = 63 \<or> c = 124 \<or> c = 47) \<and> remainder_text r)"
  unfolding accepts_Alt accepts_Seq_Cls accepts_Rep accepts_Empty remainder_start_is
    remainder_char_is
  by auto

lemma accepts_remainder3:
  "accepts (Alt (Seq (Lit (str_of ''?'')) (Rep remainder_char 0 None)) Empty) rem \<longleftrightarrow>
     rem = [] \<or> (\<exists>r. rem = 63 # r \<and> remainder_text r)"
  unfolding accepts_Alt accepts_Seq accepts_Lit accepts_Rep accepts_Empty remainder_char_is
  by (auto simp add: str_of_def)

lemma accepts_short_extension:
  "accepts (Alt (Rep letter 1 (Some 4)) (Lit (str_of ''action''))) e \<longleftrightarrow> short_extension e"
  unfolding accepts_Alt accepts_Rep accepts_Lit letter_is short_extension_def
  by (auto simp add: Suc_le_eq)

lemma accepts_segment: "accepts (Rep segment_char 1 None) d \<longleftrightarrow> segment_text d"
  unfolding accepts_Rep segment_char_is segment_text_def by (auto simp add: Suc_le_eq)

lemma accepts_filename: "accepts (Rep filename_char 1 None) d \<longleftrightarrow> filename_text d"
  unfolding accepts_Rep filename_char_is filename_text_def by (auto simp add: Suc_le_eq)

lemma accepts_Seq_char:
  "accepts (Seq (Lit [a]) r) w \<longleftrightarrow> (\<exists>t. w = a # t \<and> accepts r t)"
  unfolding accepts_Seq accepts_Lit by auto

lemma accepts_Seq_split:
  "accepts (Seq a b) w \<longleftrightarrow> (\<exists>w1 w2. w = w1 @ w2 \<and> accepts a w1 \<and> accepts b w2)"
  by (rule accepts_Seq)

lemma accepts_branch2:
  "accepts branch2 w \<longleftrightarrow>
     (\<exists>dir name ext rem. w = dir @ 47 # name @ 46 # ext @ rem
        \<and> segment_text dir \<and> segment_text name \<and> short_extension ext
        \<and> (rem = [] \<or> (\<exists>c r. rem = c # r \<and> (c = 63 \<or> c = 124 \<or> c = 47) \<and> remainder_text r)))"
proof -
  let ?R = "\<lambda>rem. rem = [] \<or> (\<exists>c r. rem = c # r \<and> (c = 63 \<or> c = 124 \<or> c = 47) \<and> remainder_text r)"
  let ?F = "Alt (Seq (Cls remainder_start) (Rep remainder_char 0 None)) Empty"
  let ?E = "Alt (Rep letter 1 (Some 4)) (Lit (str_of ''action''))"
  let ?S = "Rep segment_char 1 None"
  have 1: "accepts (Seq ?E ?F) x \<longleftrightarrow> (\<exists>ext rem. x = ext @ rem \<and> short_extension ext \<and> ?R rem)"
    for x
    unfolding accepts_Seq_split [of ?E ?F] accepts_short_extension accepts_remainder2 ..
  have 2: "accepts (Seq (Lit [46]) (Seq ?E ?F)) x
      \<longleftrightarrow> (\<exists>ext rem. x = 46 # ext @ rem \<and> short_extension ext \<and> ?R rem)" for x
    unfolding accepts_Seq_char 1 by blast
  have 3: "accepts (Seq ?S (Seq (Lit [46]) (Seq ?E ?F))) x
      \<longleftrightarrow> (\<exists>name ext rem. x = name @ 46 # ext @ rem \<and> segment_text name
             \<and> short_extension ext \<and> ?R rem)" for x
    unfolding accepts_Seq_split [of ?S] accepts_segment 2 by blast
  have 4: "accepts (Seq (Lit [47]) (Seq ?S (Seq (Lit [46]) (Seq ?E ?F)))) x
      \<longleftrightarrow> (\<exists>name ext rem. x = 47 # name @ 46 # ext @ rem \<and> segment_text name
             \<and> short_extension ext \<and> ?R rem)" for x
    unfolding accepts_Seq_char 3 by blast
  have 5: "accepts (Seq ?S (Seq (Lit [47]) (Seq ?S (Seq (Lit [46]) (Seq ?E ?F))))) x
      \<longleftrightarrow> (\<exists>dir name ext rem. x = dir @ 47 # name @ 46 # ext @ rem \<and> segment_text dir
             \<and> segment_text name \<and> short_extension ext \<and> ?R rem)" for x
    unfolding accepts_Seq_split [of ?S] accepts_segment 4 by blast
  have b: "branch2 = Grp 3 (Seq ?S (Seq (Lit [47]) (Seq ?S (Seq (Lit [46]) (Seq ?E ?F)))))"
    unfolding branch2_def by (simp add: str_of_def)
  show ?thesis unfolding b accepts_Grp 5 ..
qed

lemma accepts_alternatives:
  "accepts alternatives w \<longleftrightarrow> accepts branch1 w \<or> accepts branch2 w \<or> accepts branch3 w"
  unfolding alternatives_def accepts_Alt ..

lemma branch2_first: "accepts branch2 w \<Longrightarrow> \<exists>c t. w = c # t \<and> (is_word_dash c \<or> c = 47)"
  unfolding accepts_branch2 segment_text_def by (auto simp add: neq_Nil_conv)

lemma branch3_first: "accepts branch3 w \<Longrightarrow> \<exists>c t. w = c # t \<and> is_word_dash c"
  unfolding accepts_branch3 filename_text_def by (auto simp add: neq_Nil_conv)

lemma extract_sound:
  assumes "DefaultParsed_extract_urls_from_js lib js = Inr urls" and "lit \<in> set urls"
  shows "accepts alternatives lit"
proof (cases "decode_utf8_ignore lib js")
  case (Inl e)
  with assms show ?thesis
    by (cases e) (simp_all add: DefaultParsed_extract_urls_from_js_def)
next
  case (Inr t)
  with assms have "lit \<in> set (findall_group1 t)"
    by (auto simp add: DefaultParsed_extract_urls_from_js_def)
  then show ?thesis using findall_sound by blast
qed

lemma extract_literal:
  assumes "decode_utf8_ignore lib js = Inr (pre @ q1 # lit @ q2 # post)"
    and "quote_free pre" and "is_quote q1" and "is_quote q2" and "accepts alternatives lit"
  shows "DefaultParsed_extract_urls_from_js lib js = Inr (lit # findall_group1 post)"
  using assms(1) findall_literal [OF assms(2,3,4,5)]
  by (simp add: DefaultParsed_extract_urls_from_js_def)

lemma findall_Nil: "findall_group1 [] = []"
  unfolding findall_group1_def finditer_Nil by simp

text \<open>The definitions by which the scan of a concrete text is computed.\<close>

lemmas ev = RULE_def alternatives_def branch1_def branch2_def branch3_def extension_def
  delimiter_def path_first_def path_rest_def segment_char_def filename_char_def letter_def
  remainder_start_def remainder_char_def ones_def str_of_def dq_def sq_def findall_group1_def
  match_group_def Let_def DefaultParsed_extract_urls_from_js_def example_parser_def

subsection \<open>Scanning up to an opening quote\<close>

text \<open>
  If scanning the text up to and including a quote yields what scanning the text before
  the quote yields, the quote was not taken as the closing quote of a match, and the scan
  of the whole text is the scan of the text before the quote followed by the scan from
  the quote on.
\<close>

lemma findall_Cons_no_match:
  "ms RULE (c # cs) = [] \<Longrightarrow> findall_group1 (c # cs) = findall_group1 cs"
  by (simp add: findall_group1_def)

lemma findall_match:
  assumes "is_quote q1" and "is_quote q2" and "accepts alternatives m"
  shows "findall_group1 (q1 # m @ q2 # post) = m # findall_group1 post"
proof -
  have "quote_free []" by (simp add: quote_free_def)
  from findall_literal [OF this assms] show ?thesis by simp
qed

lemma findall_quote_free:
  assumes "quote_free s"
  shows "findall_group1 s = []"
proof -
  have "finditer 0 (s @ []) = finditer 0 []" using assms by (rule finditer_quote_free)
  also have "\<dots> = []" by (rule finditer_Nil)
  finally have "finditer 0 s = []" by simp
  then show ?thesis unfolding findall_group1_def by simp
qed

lemma RULE_no_match_prefix:
  assumes "ms RULE (s @ x) = []"
  shows "ms RULE s = []"
proof (rule ccontr)
  assume "ms RULE s \<noteq> []"
  then obtain w g where "(w, g) \<in> set (ms RULE s)" by (cases "ms RULE s") auto
  from RULE_match_shape [OF this] obtain q1 m q2 rest where
    s: "s = q1 # m @ q2 # rest" and q: "is_quote q1" "is_quote q2" and m: "accepts alternatives m"
    by blast
  from RULE_match_intro [OF q m, of "rest @ x"] assms show False unfolding s by simp
qed

lemma first_quote_split:
  assumes "quote_free m" and "is_quote q1" and "pre @ q1 # rest = m @ qb # r"
  shows "(pre = m \<and> q1 = qb \<and> rest = r) \<or> (\<exists>pre'. pre = m @ qb # pre' \<and> r = pre' @ q1 # rest)"
proof -
  from assms(3) obtain u where
    u: "(pre @ u = m \<and> q1 # rest = u @ qb # r) \<or> (pre = m @ u \<and> u @ q1 # rest = qb # r)"
    unfolding append_eq_append_conv2 by blast
  show ?thesis
  proof (cases u)
    case Nil
    with u show ?thesis by auto
  next
    case (Cons a u')
    from u show ?thesis
    proof
      assume h: "pre @ u = m \<and> q1 # rest = u @ qb # r"
      then have "a = q1" unfolding Cons by simp
      with h have "q1 \<in> set m" unfolding Cons by auto
      with assms(1,2) have False by (auto simp add: quote_free_def is_quote_def)
      then show ?thesis ..
    next
      assume h: "pre = m @ u \<and> u @ q1 # rest = qb # r"
      then have "a = qb" and "r = u' @ q1 # rest" unfolding Cons by simp_all
      with h show ?thesis unfolding Cons by simp
    qed
  qed
qed

lemma findall_scan:
  assumes "is_quote q1"
  shows "findall_group1 (pre @ [q1]) = findall_group1 pre
     \<Longrightarrow> findall_group1 (pre @ q1 # rest) = findall_group1 pre @ findall_group1 (q1 # rest)"
proof (induction pre rule: length_induct)
  case (1 pre)
  show ?case
  proof (cases pre)
    case Nil
    then show ?thesis by (simp add: findall_Nil)
  next
    case (Cons c pre')
    show ?thesis
    proof (cases "ms RULE (c # pre' @ q1 # rest) = []")
      case True
      have "ms RULE ((c # pre' @ [q1]) @ rest) = []" using True by simp
      then have n1: "ms RULE (c # pre' @ [q1]) = []" by (rule RULE_no_match_prefix)
      have "ms RULE ((c # pre') @ q1 # rest) = []" using True by simp
      then have n2: "ms RULE (c # pre') = []" by (rule RULE_no_match_prefix)
      have h: "findall_group1 (pre' @ [q1]) = findall_group1 pre'"
        using 1(2) unfolding Cons
        by (simp add: findall_Cons_no_match [OF n1] findall_Cons_no_match [OF n2])
      have "length pre' < length pre" unfolding Cons by simp
      with 1(1) h
      have "findall_group1 (pre' @ q1 # rest) = findall_group1 pre' @ findall_group1 (q1 # rest)"
        by blast
      then show ?thesis unfolding Cons
        by (simp add: findall_Cons_no_match [OF True] findall_Cons_no_match [OF n2])
    next
      case False
      then obtain w g where "(w, g) \<in> set (ms RULE (c # pre' @ q1 # rest))"
        by (cases "ms RULE (c # pre' @ q1 # rest)") auto
      from RULE_match_shape [OF this] obtain qa m qb r where
        s: "c # pre' @ q1 # rest = qa # m @ qb # r" and q: "is_quote qa" "is_quote qb"
        and m: "quote_free m" "accepts alternatives m"
        by blast
      from s have c: "c = qa" and e: "pre' @ q1 # rest = m @ qb # r" by simp_all
      from first_quote_split [OF m(1) assms e]
      show ?thesis
      proof
        assume b1: "pre' = m \<and> q1 = qb \<and> rest = r"
        have "findall_group1 (pre @ [q1]) = m # findall_group1 []"
          unfolding Cons c using findall_match [OF q m(2), of "[]"] b1 by simp
        moreover have "findall_group1 pre = []"
        proof -
          have "ms RULE (qa # m) = []"
          proof (rule ccontr)
            assume "ms RULE (qa # m) \<noteq> []"
            then obtain w' g' where "(w', g') \<in> set (ms RULE (qa # m))"
              by (cases "ms RULE (qa # m)") auto
            from RULE_match_shape [OF this] obtain q2' where "is_quote q2'" "q2' \<in> set m"
              by auto
            with m(1) show False by (auto simp add: quote_free_def is_quote_def)
          qed
          then have "findall_group1 (qa # m) = findall_group1 m" by (rule findall_Cons_no_match)
          also have "\<dots> = []" using m(1) by (rule findall_quote_free)
          finally show ?thesis unfolding Cons c using b1 by simp
        qed
        ultimately have False using 1(2) by simp
        then show ?thesis ..
      next
        assume "\<exists>pre''. pre' = m @ qb # pre'' \<and> r = pre'' @ q1 # rest"
        then obtain pre'' where b2: "pre' = m @ qb # pre''" "r = pre'' @ q1 # rest" by blast
        have p: "pre = qa # m @ qb # pre''" unfolding Cons c b2(1) ..
        have f1: "findall_group1 pre = m # findall_group1 pre''"
          unfolding p using q m(2) by (rule findall_match)
        have f2: "findall_group1 (pre @ [q1]) = m # findall_group1 (pre'' @ [q1])"
          unfolding p using findall_match [OF q m(2), of "pre'' @ [q1]"] by simp
        have f3: "findall_group1 (pre @ q1 # rest) = m # findall_group1 (pre'' @ q1 # rest)"
          unfolding p using findall_match [OF q m(2), of "pre'' @ q1 # rest"] by simp
        have h: "findall_group1 (pre'' @ [q1]) = findall_group1 pre''"
          using 1(2) unfolding f1 f2 by simp
        have "length pre'' < length pre" unfolding p by simp
        with 1(1) h
        have "findall_group1 (pre'' @ q1 # rest) = findall_group1 pre'' @ findall_group1 (q1 # rest)"
          by blast
        then show ?thesis unfolding f1 f3 by simp
      qed
    qed
  qed
qed

lemma findall_literal_scan:
  assumes "findall_group1 (pre @ [q1]) = findall_group1 pre"
    and "is_quote q1" and "is_quote q2" and "accepts alternatives lit"
  shows "findall_group1 (pre @ q1 # lit @ q2 # post)
         = findall_group1 pre @ lit # findall_group1 post"
  using findall_scan [OF assms(2) assms(1), of "lit @ q2 # post"] findall_match [OF assms(2,3,4)]
  by simp

lemma extract_literal_scan:
  assumes "decode_utf8_ignore lib js = Inr (pre @ q1 # lit @ q2 # post)"
    and "findall_group1 (pre @ [q1]) = findall_group1 pre"
    and "is_quote q1" and "is_quote q2" and "accepts alternatives lit"
  shows "DefaultParsed_extract_urls_from_js lib js
         = Inr (findall_group1 pre @ lit # findall_group1 post)"
  using assms(1) findall_literal_scan [OF assms(2,3,4,5)]
  by (simp add: DefaultParsed_extract_urls_from_js_def)

lemma path_prefix_unique:
  assumes "p = str_of ''/'' \<or> p = str_of ''./'' \<or> p = str_of ''../''"
    and "p' = str_of ''/'' \<or> p' = str_of ''./'' \<or> p' = str_of ''../''"
    and "p @ c # rest = p' @ c' # rest'"
  shows "p = p' \<and> c = c' \<and> rest = rest'"
  using assms by (auto simp add: str_of_def)

lemma path_literal_shape:
  assumes "p = str_of ''/'' \<or> p = str_of ''./'' \<or> p = str_of ''../''"
  shows "accepts branch1 (p @ c # rest)
     \<longleftrightarrow> c \<notin> denied_first \<and> rest \<noteq> [] \<and> set rest \<inter> denied_rest = {}"
proof
  assume "accepts branch1 (p @ c # rest)"
  then obtain p' c' rest' where h: "p @ c # rest = p' @ c' # rest'"
    "p' = str_of ''/'' \<or> p' = str_of ''./'' \<or> p' = str_of ''../''"
    "c' \<notin> denied_first" "rest' \<noteq> []" "set rest' \<inter> denied_rest = {}"
    unfolding accepts_branch1 by blast
  from path_prefix_unique [OF assms h(2) h(1)] h(3,4,5)
  show "c \<notin> denied_first \<and> rest \<noteq> [] \<and> set rest \<inter> denied_rest = {}" by simp
next
  assume "c \<notin> denied_first \<and> rest \<noteq> [] \<and> set rest \<inter> denied_rest = {}"
  with assms show "accepts branch1 (p @ c # rest)" unfolding accepts_branch1 by blast
qed

lemma not_word_dash: "\<not> is_word_dash 46" "\<not> is_word_dash 47"
  by (simp_all add: is_word_dash_def is_letter_def)


subsection \<open>Shape 1: path literals\<close>

text \<open>
  The literal \<open>/a b\<close> holds a space, which is on the denylist, and is yielded all the
  same; the literal \<open>//ab\<close>, in which \<open>/\<close> is followed by three characters none of which
  is on the denylist of the specification or a quote, is not yielded; and in the text
  \<open>"//x"/ab/"/cd"\<close> the quoted literal \<open>/cd\<close> is not yielded, because its opening quote
  was taken as the closing quote of the match \<open>"/ab/"\<close>.
\<close>

theorem path_literal_denylist_counterexample:
  "32 \<in> spec_denylist
   \<and> DefaultParsed_extract_urls_from_js example_parser (dq # str_of ''/a b'' @ [dq])
       = Inr [str_of ''/a b'']
   \<and> set (str_of ''/ab'') \<inter> (spec_denylist \<union> {dq, sq}) = {}
   \<and> DefaultParsed_extract_urls_from_js example_parser (dq # str_of ''//ab'' @ [dq]) = Inr []
   \<and> set (str_of ''cd'') \<inter> (spec_denylist \<union> {dq, sq}) = {}
   \<and> DefaultParsed_extract_urls_from_js example_parser
       (dq # str_of ''//x'' @ dq # str_of ''/ab/'' @ dq # str_of ''/cd'' @ [dq])
       = Inr [str_of ''/ab/'']"
proof (intro conjI)
  show "32 \<in> spec_denylist" by (simp add: spec_denylist_def str_of_def)
  show "set (str_of ''/ab'') \<inter> (spec_denylist \<union> {dq, sq}) = {}"
    by (simp add: spec_denylist_def str_of_def dq_def sq_def)
  show "set (str_of ''cd'') \<inter> (spec_denylist \<union> {dq, sq}) = {}"
    by (simp add: spec_denylist_def str_of_def dq_def sq_def)
  show "DefaultParsed_extract_urls_from_js example_parser (dq # str_of ''/a b'' @ [dq])
       = Inr [str_of ''/a b'']"
    by (simp add: ev)
  show "DefaultParsed_extract_urls_from_js example_parser (dq # str_of ''//ab'' @ [dq]) = Inr []"
    by (simp add: ev)
  show "DefaultParsed_extract_urls_from_js example_parser
       (dq # str_of ''//x'' @ dq # str_of ''/ab/'' @ dq # str_of ''/cd'' @ [dq])
       = Inr [str_of ''/ab/'']"
    by (simp add: ev)
qed

text \<open>
  Claim C2. Let a literal begin with \<open>/\<close>, \<open>./\<close> or \<open>../\<close>, followed by a character \<open>c\<close>
  and the characters \<open>rest\<close>. It is of shape 1 exactly when there are at least two
  following characters (\<open>rest\<close> is not empty), \<open>c\<close> is none of
  \<open>" ' > < , ; |\<close> space \<open>* ( ) % $ ^ / \ [ ]\<close> and no character of \<open>rest\<close> is any of
  \<open>" ' > < , ; | ( )\<close>. When it is, and it stands between two quote characters in a
  script text whose scan arrives at the opening quote (the opening quote is not the
  closing quote of an earlier match: scanning the text up to and including it yields the
  candidates of the text before it), then \<open>extract_urls_from_js\<close> yields the literal
  without its quotes, after the candidates of the text before it and before those of the
  text behind the closing quote. Conversely, in every script text a yielded candidate that
  begins with \<open>./\<close> or \<open>../\<close> meets these conditions, and one that begins with \<open>/\<close> meets
  them or is of shape 2.
\<close>

theorem path_literal_yielded:
  assumes "p = str_of ''/'' \<or> p = str_of ''./'' \<or> p = str_of ''../''"
  shows "(accepts branch1 (p @ c # rest)
            \<longleftrightarrow> c \<notin> denied_first \<and> rest \<noteq> [] \<and> set rest \<inter> denied_rest = {})
       \<and> (c \<notin> denied_first \<and> rest \<noteq> [] \<and> set rest \<inter> denied_rest = {}
            \<and> findall_group1 (pre @ [q1]) = findall_group1 pre \<and> is_quote q1 \<and> is_quote q2
            \<and> decode_utf8_ignore lib js = Inr (pre @ q1 # (p @ c # rest) @ q2 # post)
          \<longrightarrow> DefaultParsed_extract_urls_from_js lib js
                = Inr (findall_group1 pre @ (p @ c # rest) # findall_group1 post))
       \<and> (DefaultParsed_extract_urls_from_js lib js' = Inr urls \<and> p @ c # rest \<in> set urls
          \<longrightarrow> (c \<notin> denied_first \<and> rest \<noteq> [] \<and> set rest \<inter> denied_rest = {})
              \<or> (p = str_of ''/'' \<and> accepts branch2 (p @ c # rest)))"
proof (intro conjI impI)
  show "accepts branch1 (p @ c # rest)
            \<longleftrightarrow> c \<notin> denied_first \<and> rest \<noteq> [] \<and> set rest \<inter> denied_rest = {}"
    using assms by (rule path_literal_shape)
next
  assume a: "c \<notin> denied_first \<and> rest \<noteq> [] \<and> set rest \<inter> denied_rest = {}
            \<and> findall_group1 (pre @ [q1]) = findall_group1 pre \<and> is_quote q1 \<and> is_quote q2
            \<and> decode_utf8_ignore lib js = Inr (pre @ q1 # (p @ c # rest) @ q2 # post)"
  then have "accepts branch1 (p @ c # rest)" using path_literal_shape [OF assms] by blast
  then have acc: "accepts alternatives (p @ c # rest)" unfolding accepts_alternatives ..
  from a have d: "decode_utf8_ignore lib js = Inr (pre @ q1 # (p @ c # rest) @ q2 # post)"
    and h: "findall_group1 (pre @ [q1]) = findall_group1 pre"
    and q: "is_quote q1" "is_quote q2" by simp_all
  from d h q acc
  show "DefaultParsed_extract_urls_from_js lib js
          = Inr (findall_group1 pre @ (p @ c # rest) # findall_group1 post)"
    by (rule extract_literal_scan)
next
  assume a: "DefaultParsed_extract_urls_from_js lib js' = Inr urls \<and> p @ c # rest \<in> set urls"
  then have "accepts alternatives (p @ c # rest)" using extract_sound by blast
  then consider (1) "accepts branch1 (p @ c # rest)" | (2) "accepts branch2 (p @ c # rest)"
    | (3) "accepts branch3 (p @ c # rest)"
    unfolding accepts_alternatives by blast
  then show "(c \<notin> denied_first \<and> rest \<noteq> [] \<and> set rest \<inter> denied_rest = {})
              \<or> (p = str_of ''/'' \<and> accepts branch2 (p @ c # rest))"
  proof cases
    case 1
    then show ?thesis using path_literal_shape [OF assms] by blast
  next
    case 2
    from branch2_first [OF 2] obtain x t where "p @ c # rest = x # t" "is_word_dash x \<or> x = 47"
      by blast
    with assms have "p = str_of ''/''" using not_word_dash by (auto simp add: str_of_def)
    with 2 show ?thesis by simp
  next
    case 3
    from branch3_first [OF 3] obtain x t where "p @ c # rest = x # t" "is_word_dash x" by blast
    with assms have False using not_word_dash by (auto simp add: str_of_def)
    then show ?thesis ..
  qed
qed

theorem path_literal_yielded_witness:
  "accepts branch1 (str_of ''/api/v1/users'')
   \<and> DefaultParsed_extract_urls_from_js example_parser
       (str_of ''f('' @ dq # str_of ''x'' @ dq # str_of '', '' @ dq # str_of ''/api/v1/users''
          @ dq # str_of '')'')
       = Inr [str_of ''/api/v1/users'']
   \<and> ((97 \<notin> denied_first \<and> str_of ''pi/v1/users'' \<noteq> []
          \<and> set (str_of ''pi/v1/users'') \<inter> denied_rest = {})
        \<or> (str_of ''/'' = str_of ''/''
            \<and> accepts branch2 (str_of ''/'' @ 97 # str_of ''pi/v1/users'')))"
proof -
  let ?pre = "str_of ''f('' @ dq # str_of ''x'' @ dq # str_of '', ''"
  let ?js = "str_of ''f('' @ dq # str_of ''x'' @ dq # str_of '', '' @ dq
     # str_of ''/api/v1/users'' @ dq # str_of '')''"
  have p: "str_of ''/'' = str_of ''/'' \<or> str_of ''/'' = str_of ''./'' \<or> str_of ''/'' = str_of ''../''"
    by simp
  note t = path_literal_yielded [OF p, where c = 97 and rest = "str_of ''pi/v1/users''"
      and pre = ?pre and ?q1.0 = dq and ?q2.0 = dq and post = "str_of '')''"
      and lib = example_parser and js = ?js and js' = ?js
      and urls = "[str_of ''/'' @ 97 # str_of ''pi/v1/users'']"]
  have c: "97 \<notin> denied_first \<and> str_of ''pi/v1/users'' \<noteq> []
      \<and> set (str_of ''pi/v1/users'') \<inter> denied_rest = {}"
    by (simp add: denied_first_def denied_rest_def str_of_def dq_def sq_def)
  have f1: "findall_group1 ?pre = []" by (simp add: ev)
  have f2: "findall_group1 (?pre @ [dq]) = []" by (simp add: ev)
  have f3: "findall_group1 (str_of '')'') = []" by (simp add: ev)
  have d: "decode_utf8_ignore example_parser ?js
          = Inr (?pre @ dq # (str_of ''/'' @ 97 # str_of ''pi/v1/users'') @ dq # str_of '')'')"
    by (simp add: example_parser_def str_of_def)
  have h: "97 \<notin> denied_first \<and> str_of ''pi/v1/users'' \<noteq> []
      \<and> set (str_of ''pi/v1/users'') \<inter> denied_rest = {}
      \<and> findall_group1 (?pre @ [dq]) = findall_group1 ?pre \<and> is_quote dq \<and> is_quote dq
      \<and> decode_utf8_ignore example_parser ?js
          = Inr (?pre @ dq # (str_of ''/'' @ 97 # str_of ''pi/v1/users'') @ dq # str_of '')'')"
  proof -
    have hh: "findall_group1 (?pre @ [dq]) = findall_group1 ?pre" by (simp only: f1 f2)
    have iq: "is_quote dq" by (simp add: is_quote_def)
    from c hh iq iq d show ?thesis by (intro conjI) simp_all
  qed
  have 1: "accepts branch1 (str_of ''/'' @ 97 # str_of ''pi/v1/users'')"
    using t [THEN conjunct1] c by (rule iffD2)
  have 2: "DefaultParsed_extract_urls_from_js example_parser ?js
       = Inr (findall_group1 ?pre @ (str_of ''/'' @ 97 # str_of ''pi/v1/users'')
              # findall_group1 (str_of '')''))"
    using t [THEN conjunct2, THEN conjunct1] h by (rule mp)
  have e: "str_of ''/'' @ 97 # str_of ''pi/v1/users'' = str_of ''/api/v1/users''"
    by (simp add: str_of_def)
  have r2: "DefaultParsed_extract_urls_from_js example_parser ?js
       = Inr [str_of ''/'' @ 97 # str_of ''pi/v1/users'']"
    unfolding 2 f1 f3 by simp
  have m: "DefaultParsed_extract_urls_from_js example_parser ?js
             = Inr [str_of ''/'' @ 97 # str_of ''pi/v1/users'']
           \<and> str_of ''/'' @ 97 # str_of ''pi/v1/users''
               \<in> set [str_of ''/'' @ 97 # str_of ''pi/v1/users'']"
    using r2 by simp
  have 3: "(97 \<notin> denied_first \<and> str_of ''pi/v1/users'' \<noteq> []
          \<and> set (str_of ''pi/v1/users'') \<inter> denied_rest = {})
        \<or> (str_of ''/'' = str_of ''/''
            \<and> accepts branch2 (str_of ''/'' @ 97 # str_of ''pi/v1/users''))"
    using t [THEN conjunct2, THEN conjunct2] m by (rule mp)
  from 1 r2 3 show ?thesis unfolding e by (intro conjI)
qed

subsection \<open>Shape 2: relative paths\<close>




subsection \<open>Shape 3: bare file names\<close>

text \<open>
  The quoted file name \<open>a.js?x=1|2\<close> has an extension of the allowlist and a remainder
  that \<open>?\<close> introduces, and nothing is yielded, because the remainder holds a bar; and in
  the text \<open>"x"/a.b/"y.js"\<close> the quoted file name \<open>y.js\<close> is not yielded, because its
  opening quote was taken as the closing quote of the match \<open>"/a.b/"\<close>.
\<close>

theorem bare_filename_not_yielded:
  "DefaultParsed_extract_urls_from_js example_parser (dq # str_of ''a.js?x=1|2'' @ [dq]) = Inr []
   \<and> DefaultParsed_extract_urls_from_js example_parser
       (dq # str_of ''x'' @ dq # str_of ''/a.b/'' @ dq # str_of ''y.js'' @ [dq])
       = Inr [str_of ''/a.b/'']"
  by (simp add: ev)

text \<open>
  Claim C4. The texts of shape 3 are exactly those that consist of a non-empty name of
  word characters and dashes, a dot, an extension of the allowlist \<open>php\<close>, \<open>asp\<close>,
  \<open>aspx\<close>, \<open>jsp\<close>, \<open>json\<close>, \<open>action\<close>, \<open>html\<close>, \<open>js\<close>, \<open>txt\<close>, \<open>xml\<close>, and then nothing or
  a \<open>?\<close> followed by a remainder without quote and bar. Such a file name, standing
  between two quote characters in a script text whose scan arrives at the opening quote,
  is yielded by \<open>extract_urls_from_js\<close> without the quotes and with its remainder, after
  the candidates of the text before it and before those of the text behind the closing
  quote.
\<close>

theorem bare_filename_yielded:
  "(accepts branch3 w \<longleftrightarrow>
      (\<exists>name ext rem. w = name @ 46 # ext @ rem \<and> filename_text name \<and> ext \<in> set allowlist
         \<and> (rem = [] \<or> (\<exists>r. rem = 63 # r \<and> remainder_text r))))
   \<and> (filename_text name \<and> ext \<in> set allowlist
        \<and> (rem = [] \<or> (\<exists>r. rem = 63 # r \<and> remainder_text r))
        \<and> findall_group1 (pre @ [q1]) = findall_group1 pre \<and> is_quote q1 \<and> is_quote q2
        \<and> decode_utf8_ignore lib js = Inr (pre @ q1 # (name @ 46 # ext @ rem) @ q2 # post)
      \<longrightarrow> DefaultParsed_extract_urls_from_js lib js
            = Inr (findall_group1 pre @ (name @ 46 # ext @ rem) # findall_group1 post))"
proof (intro conjI impI)
  show "accepts branch3 w \<longleftrightarrow>
      (\<exists>name ext rem. w = name @ 46 # ext @ rem \<and> filename_text name \<and> ext \<in> set allowlist
         \<and> (rem = [] \<or> (\<exists>r. rem = 63 # r \<and> remainder_text r)))"
    by (rule accepts_branch3)
next
  assume a: "filename_text name \<and> ext \<in> set allowlist
        \<and> (rem = [] \<or> (\<exists>r. rem = 63 # r \<and> remainder_text r))
        \<and> findall_group1 (pre @ [q1]) = findall_group1 pre \<and> is_quote q1 \<and> is_quote q2
        \<and> decode_utf8_ignore lib js = Inr (pre @ q1 # (name @ 46 # ext @ rem) @ q2 # post)"
  then have "accepts branch3 (name @ 46 # ext @ rem)" unfolding accepts_branch3 by blast
  then have acc: "accepts alternatives (name @ 46 # ext @ rem)"
    unfolding accepts_alternatives by blast
  from a have d: "decode_utf8_ignore lib js = Inr (pre @ q1 # (name @ 46 # ext @ rem) @ q2 # post)"
    and h: "findall_group1 (pre @ [q1]) = findall_group1 pre"
    and q: "is_quote q1" "is_quote q2" by simp_all
  from d h q acc
  show "DefaultParsed_extract_urls_from_js lib js
          = Inr (findall_group1 pre @ (name @ 46 # ext @ rem) # findall_group1 post)"
    by (rule extract_literal_scan)
qed

theorem bare_filename_yielded_witness:
  "DefaultParsed_extract_urls_from_js example_parser
     (str_of ''go('' @ dq # str_of ''report.action?id=5'' @ dq # str_of '')'')
     = Inr [str_of ''report.action?id=5'']
   \<and> accepts branch3 (str_of ''report.action?id=5'')"
proof -
  let ?js = "str_of ''go('' @ dq # str_of ''report.action?id=5'' @ dq # str_of '')''"
  let ?lit = "str_of ''report'' @ 46 # str_of ''action'' @ str_of ''?id=5''"
  note t = bare_filename_yielded [where name = "str_of ''report''" and ext = "str_of ''action''"
      and rem = "str_of ''?id=5''" and pre = "str_of ''go(''" and ?q1.0 = dq and ?q2.0 = dq
      and post = "str_of '')''" and lib = example_parser and js = ?js, THEN conjunct2]
  have f1: "findall_group1 (str_of ''go('') = []" by (simp add: ev)
  have f2: "findall_group1 (str_of ''go('' @ [dq]) = []" by (simp add: ev)
  have f3: "findall_group1 (str_of '')'') = []" by (simp add: ev)
  have a: "filename_text (str_of ''report'') \<and> str_of ''action'' \<in> set allowlist
        \<and> (str_of ''?id=5'' = [] \<or> (\<exists>r. str_of ''?id=5'' = 63 # r \<and> remainder_text r))
        \<and> findall_group1 (str_of ''go('' @ [dq]) = findall_group1 (str_of ''go('')
        \<and> is_quote dq \<and> is_quote dq
        \<and> decode_utf8_ignore example_parser ?js
            = Inr (str_of ''go('' @ dq # ?lit @ dq # str_of '')'')"
  proof -
    have c: "filename_text (str_of ''report'') \<and> str_of ''action'' \<in> set allowlist
        \<and> (str_of ''?id=5'' = [] \<or> (\<exists>r. str_of ''?id=5'' = 63 # r \<and> remainder_text r))"
      by (simp add: filename_text_def allowlist_def remainder_text_def is_word_dash_def
          is_letter_def str_of_def dq_def sq_def)
    have hh: "findall_group1 (str_of ''go('' @ [dq]) = findall_group1 (str_of ''go('')"
      by (simp only: f1 f2)
    have iq: "is_quote dq" by (simp add: is_quote_def)
    have d: "decode_utf8_ignore example_parser ?js
            = Inr (str_of ''go('' @ dq # ?lit @ dq # str_of '')'')"
      by (simp add: example_parser_def str_of_def)
    from c hh iq iq d show ?thesis by (intro conjI) simp_all
  qed
  have e: "?lit = str_of ''report.action?id=5''"
    by (simp add: str_of_def)
  from t a
  have "DefaultParsed_extract_urls_from_js example_parser ?js
        = Inr (findall_group1 (str_of ''go('') @ ?lit # findall_group1 (str_of '')''))"
    by (rule mp)
  then have 1: "DefaultParsed_extract_urls_from_js example_parser ?js
        = Inr [str_of ''report.action?id=5'']"
    unfolding e f1 f3 by simp
  have "\<exists>name ext rem. ?lit = name @ 46 # ext @ rem \<and> filename_text name
          \<and> ext \<in> set allowlist \<and> (rem = [] \<or> (\<exists>r. rem = 63 # r \<and> remainder_text r))"
    using a by blast
  with bare_filename_yielded [where w = ?lit, THEN conjunct1]
  have "accepts branch3 ?lit" by (rule iffD2)
  then have 2: "accepts branch3 (str_of ''report.action?id=5'')" unfolding e .
  from 1 2 show ?thesis by (intro conjI)
qed

section \<open>The Orchestrator\<close>

lemma process_target_no_payload:
  "get req u verify_ssl = Inr None \<Longrightarrow> process_target rt u parsed req verify_ssl = Inr {}"
  by (simp add: process_target_def)

lemma process_target_empty_payload:
  "get req u verify_ssl = Inr (Some []) \<Longrightarrow> process_target rt u parsed req verify_ssl = Inr {}"
  by (simp add: process_target_def)

text \<open>
  Claim C10. \<open>process_target\<close> does not tell a page fetch that returned an empty payload
  from one that returned no payload: in both cases it returns the empty set, whatever the
  parser is, so nothing is parsed.
\<close>

theorem process_target_empty_page:
  assumes "get req u verify_ssl = Inr None \<or> get req u verify_ssl = Inr (Some [])"
  shows "process_target rt u parsed req verify_ssl = Inr {}"
  using assms process_target_no_payload process_target_empty_payload by blast

theorem process_target_empty_page_witness:
  "process_target example_rt (str_of ''http://empty'') example_parsed example_req False = Inr {}"
proof -
  have "get example_req (str_of ''http://empty'') False = Inr None
      \<or> get example_req (str_of ''http://empty'') False = Inr (Some [])"
    by (simp add: example_req_def)
  then show ?thesis by (rule process_target_empty_page)
qed

lemma collect_union:
  "\<forall>r \<in> set rs. handled parsed r \<Longrightarrow>
   collect parsed rs found = Inr (found \<union> (\<Union>r \<in> set rs. contribution parsed r))"
proof (induction parsed rs found rule: collect.induct)
  case (1 parsed found)
  then show ?case by simp
next
  case (2 parsed e rs found)
  then show ?case by simp
next
  case (3 parsed rs found)
  then show ?case by simp
next
  case (4 parsed js rs found)
  show ?case
  proof (cases "js = []")
    case True
    with 4 show ?thesis by simp
  next
    case False
    with 4(3) obtain urls where u: "extract_urls_from_js parsed js = Inr urls" by auto
    from 4(3) have rest: "\<forall>r \<in> set rs. handled parsed r" by simp
    have "collect parsed (Inr (Some js) # rs) found = collect parsed rs (found \<union> set urls)"
      using False u by simp
    also have "\<dots> = Inr ((found \<union> set urls) \<union> (\<Union>r \<in> set rs. contribution parsed r))"
      using False u rest by (rule 4(2))
    finally show ?thesis using False u by (simp add: Un_assoc)
  qed
qed

lemma collect_all_failed:
  "\<forall>r \<in> set rs. r = Inr None \<Longrightarrow> collect parsed rs found = Inr found"
  by (induction rs) auto

lemma process_target_scripts:
  assumes "get req u v = Inr (Some html)" and "html \<noteq> []"
    and "extract_scripts parsed html = Inr scripts"
    and "join_all rt u scripts = Inr full"
  shows "process_target rt u parsed req v
         = collect parsed (as_completed rt None (map (\<lambda>js_url. get req js_url v) full)) {}"
  using assms by (simp add: process_target_def)

lemma handled_iff:
  "handled parsed x \<longleftrightarrow>
     (\<exists>r. x = Inr r \<and> (\<forall>js. r = Some js \<and> js \<noteq> [] \<longrightarrow> (\<exists>urls. extract_urls_from_js parsed js = Inr urls)))"
  by (cases "(parsed, x)" rule: handled.cases) auto

lemma contribution_iff:
  "c \<in> contribution parsed x \<longleftrightarrow>
     (\<exists>js urls. x = Inr (Some js) \<and> js \<noteq> [] \<and> extract_urls_from_js parsed js = Inr urls \<and> c \<in> set urls)"
  by (cases "(parsed, x)" rule: contribution.cases) (auto split: sum.splits)

text \<open>
  Claim C5. \<open>process_target\<close> returns the empty set when the page fetch yields no payload.
  When the page was fetched, its script references were extracted and resolved, and the
  pool completes exactly the fetches that were submitted (in any order), then, where no
  fetch and no scan raises, the result is the union of the candidates of the scripts that
  were fetched with a non-empty payload: a script whose fetch yields no payload adds
  nothing, and the candidates of its siblings are still collected. If every script fetch
  yields no payload the result is the empty set, not an error.
\<close>

theorem process_target_isolates_failures:
  "(get req u v = Inr None \<longrightarrow> process_target rt u parsed req v = Inr {})
   \<and> (get req u v = Inr (Some html) \<and> html \<noteq> []
        \<and> extract_scripts parsed html = Inr scripts
        \<and> join_all rt u scripts = Inr full
        \<and> set (as_completed rt None (map (\<lambda>j. get req j v) full)) = set (map (\<lambda>j. get req j v) full)
      \<longrightarrow>
        ((\<forall>j \<in> set full. \<exists>r. get req j v = Inr r
              \<and> (\<forall>js. r = Some js \<and> js \<noteq> [] \<longrightarrow> (\<exists>urls. extract_urls_from_js parsed js = Inr urls)))
          \<longrightarrow> process_target rt u parsed req v
              = Inr {c. \<exists>j \<in> set full. \<exists>js urls. get req j v = Inr (Some js) \<and> js \<noteq> []
                         \<and> extract_urls_from_js parsed js = Inr urls \<and> c \<in> set urls})
        \<and> ((\<forall>j \<in> set full. get req j v = Inr None)
          \<longrightarrow> process_target rt u parsed req v = Inr {}))"
proof (intro conjI impI)
  assume "get req u v = Inr None"
  then show "process_target rt u parsed req v = Inr {}" by (rule process_target_no_payload)
next
  assume a: "get req u v = Inr (Some html) \<and> html \<noteq> []
        \<and> extract_scripts parsed html = Inr scripts
        \<and> join_all rt u scripts = Inr full
        \<and> set (as_completed rt None (map (\<lambda>j. get req j v) full)) = set (map (\<lambda>j. get req j v) full)"
  let ?rs = "map (\<lambda>j. get req j v) full"
  from a have a1: "get req u v = Inr (Some html)" and a2: "html \<noteq> []"
    and a3: "extract_scripts parsed html = Inr scripts" and a4: "join_all rt u scripts = Inr full"
    by simp_all
  from a1 a2 a3 a4
  have p: "process_target rt u parsed req v = collect parsed (as_completed rt None ?rs) {}"
    by (rule process_target_scripts)
  from a have o: "set (as_completed rt None ?rs) = set ?rs" by simp
  {
    assume h: "\<forall>j \<in> set full. \<exists>r. get req j v = Inr r
              \<and> (\<forall>js. r = Some js \<and> js \<noteq> [] \<longrightarrow> (\<exists>urls. extract_urls_from_js parsed js = Inr urls))"
    have "\<forall>r \<in> set (as_completed rt None ?rs). handled parsed r"
      unfolding o using h by (simp add: handled_iff)
    then have "collect parsed (as_completed rt None ?rs) {}
               = Inr ({} \<union> (\<Union>r \<in> set (as_completed rt None ?rs). contribution parsed r))"
      by (rule collect_union)
    also have "(\<Union>r \<in> set (as_completed rt None ?rs). contribution parsed r)
               = {c. \<exists>j \<in> set full. \<exists>js urls. get req j v = Inr (Some js) \<and> js \<noteq> []
                         \<and> extract_urls_from_js parsed js = Inr urls \<and> c \<in> set urls}"
      unfolding o by (auto simp: contribution_iff)
    finally show "process_target rt u parsed req v
              = Inr {c. \<exists>j \<in> set full. \<exists>js urls. get req j v = Inr (Some js) \<and> js \<noteq> []
                         \<and> extract_urls_from_js parsed js = Inr urls \<and> c \<in> set urls}"
      unfolding p by simp
  }
  {
    assume h: "\<forall>j \<in> set full. get req j v = Inr None"
    have "\<forall>r \<in> set (as_completed rt None ?rs). r = Inr None"
      unfolding o using h by simp
    then have "collect parsed (as_completed rt None ?rs) {} = Inr {}"
      by (rule collect_all_failed)
    then show "process_target rt u parsed req v = Inr {}" unfolding p .
  }
qed

theorem process_target_isolates_failures_witness:
  "process_target example_rt (str_of ''http://page'') example_parsed example_req False
     = Inr {str_of ''/api/v1/users''}"
proof -
  let ?full = "[str_of ''http://page/a.js'', str_of ''http://page/b.js'']"
  note t = process_target_isolates_failures [where rt = example_rt and u = "str_of ''http://page''"
      and parsed = example_parsed and req = example_req and v = False
      and html = "str_of ''<html>''" and scripts = "[str_of ''a.js'', str_of ''b.js'']"
      and full = ?full]
  have 1: "(\<forall>j \<in> set ?full. \<exists>r. get example_req j False = Inr r
              \<and> (\<forall>js. r = Some js \<and> js \<noteq> [] \<longrightarrow> (\<exists>urls. extract_urls_from_js example_parsed js = Inr urls)))
          \<longrightarrow> process_target example_rt (str_of ''http://page'') example_parsed example_req False
              = Inr {c. \<exists>j \<in> set ?full. \<exists>js urls. get example_req j False = Inr (Some js) \<and> js \<noteq> []
                         \<and> extract_urls_from_js example_parsed js = Inr urls \<and> c \<in> set urls}"
    by (rule t [THEN conjunct2, THEN mp, THEN conjunct1])
       (auto simp add: example_rt_def example_parsed_def example_req_def str_of_def)
  have 2: "process_target example_rt (str_of ''http://page'') example_parsed example_req False
              = Inr {c. \<exists>j \<in> set ?full. \<exists>js urls. get example_req j False = Inr (Some js) \<and> js \<noteq> []
                         \<and> extract_urls_from_js example_parsed js = Inr urls \<and> c \<in> set urls}"
    by (rule 1 [THEN mp]) (simp add: example_parsed_def example_req_def str_of_def)
  have 3: "{c. \<exists>j \<in> set ?full. \<exists>js urls. get example_req j False = Inr (Some js) \<and> js \<noteq> []
                         \<and> extract_urls_from_js example_parsed js = Inr urls \<and> c \<in> set urls}
           = {str_of ''/api/v1/users''}"
    by (auto simp add: example_parsed_def example_req_def str_of_def)
  show ?thesis unfolding 2 3 ..
qed

section \<open>The ExtensionLoader and the driver\<close>

lemma load_custom_None: "load_custom ld None names = Inr (DefaultParsed, DefaultRequests)"
  by (cases names) (simp add: load_custom_def)

lemma load_custom_failed:
  assumes "if endswith p (str_of ''.py'') then exec_file_module ld p = Inl (Exc m)
           else import_module ld p = Inl (Exc m)"
  shows "load_custom ld (Some p) names = Inr (DefaultParsed, DefaultRequests)"
proof (cases names)
  case (Pair parsed_name req_name)
  show ?thesis
  proof (cases "endswith p (str_of ''.py'')")
    case True
    with assms have "exec_file_module ld p = Inl (Exc m)" by simp
    with True show ?thesis unfolding Pair by (simp add: load_custom_def)
  next
    case False
    with assms have "import_module ld p = Inl (Exc m)" by simp
    with False show ?thesis unfolding Pair by (simp add: load_custom_def)
  qed
qed

text \<open>
  Claim C8. When loading the substitution source raises an \<open>Exception\<close> (the file of a
  path ending in \<open>.py\<close> does not exist, or no module of that name can be imported),
  \<open>load_custom\<close> returns the pair (\<open>DefaultParsed\<close>, \<open>DefaultRequests\<close>), the same pair as
  when no source is specified; so a run that names a role and requests the override from
  such a source has the same outcome as the run without the override.
\<close>

theorem load_custom_nonexistent:
  assumes "if endswith p (str_of ''.py'') then exec_file_module ld p = Inl (Exc m)
           else import_module ld p = Inl (Exc m)"
  shows "load_custom ld (Some p) names = Inr (DefaultParsed, DefaultRequests)
       \<and> load_custom ld (Some p) names = load_custom ld None names
       \<and> (w_loader w = ld \<and> (truthy (arg_parsed_name a) \<or> truthy (arg_request_name a))
            \<longrightarrow> main w (a\<lparr>arg_custom_module := Some p\<rparr>) = main w (a\<lparr>arg_custom_module := None\<rparr>))"
proof (intro conjI impI)
  show 1: "load_custom ld (Some p) names = Inr (DefaultParsed, DefaultRequests)"
    using assms by (rule load_custom_failed)
  show "load_custom ld (Some p) names = load_custom ld None names"
    unfolding 1 load_custom_None ..
next
  assume h: "w_loader w = ld \<and> (truthy (arg_parsed_name a) \<or> truthy (arg_request_name a))"
  have l: "load_custom (w_loader w) (Some p) (arg_parsed_name a, arg_request_name a)
           = load_custom (w_loader w) None (arg_parsed_name a, arg_request_name a)"
    using h load_custom_failed [OF assms] by (simp add: load_custom_None)
  have r: "run_targets w (a\<lparr>arg_custom_module := Some p\<rparr>) urls
           = run_targets w (a\<lparr>arg_custom_module := None\<rparr>) urls" for urls
    by (simp add: run_targets_def l cong: sum.case_cong prod.case_cong if_cong)
  show "main w (a\<lparr>arg_custom_module := Some p\<rparr>) = main w (a\<lparr>arg_custom_module := None\<rparr>)"
    using h by (auto simp add: main_def r Let_def cong: sum.case_cong if_cong)
qed

theorem load_custom_nonexistent_witness:
  "load_custom example_loader (Some (str_of ''missing.py'')) (Some (str_of ''MyParser''), None)
     = Inr (DefaultParsed, DefaultRequests)
   \<and> load_custom example_loader (Some (str_of ''no.such.module'')) (None, Some (str_of ''MyRequests''))
     = load_custom example_loader None (None, Some (str_of ''MyRequests''))"
proof -
  have a: "if endswith (str_of ''missing.py'') (str_of ''.py'')
           then exec_file_module example_loader (str_of ''missing.py'') = Inl (Exc ''FileNotFoundError'')
           else import_module example_loader (str_of ''missing.py'') = Inl (Exc ''FileNotFoundError'')"
    by (simp add: example_loader_def endswith_def str_of_def)
  have b: "if endswith (str_of ''no.such.module'') (str_of ''.py'')
           then exec_file_module example_loader (str_of ''no.such.module'') = Inl (Exc ''ModuleNotFoundError'')
           else import_module example_loader (str_of ''no.such.module'') = Inl (Exc ''ModuleNotFoundError'')"
    by (simp add: example_loader_def endswith_def str_of_def)
  from load_custom_nonexistent [OF a, THEN conjunct1]
    load_custom_nonexistent [OF b, THEN conjunct2, THEN conjunct1]
  show ?thesis by (intro conjI)
qed

text \<open>
  Claim C7. The worker-count option does not reach the pool: \<open>process_target\<close> builds
  \<open>ThreadPoolExecutor()\<close> without \<open>max_workers\<close>, and the outcome of \<open>main\<close> is the same
  for every value of the option, whatever the pool does with the bound it is given.
\<close>

theorem main_ignores_workers:
  "main w (a\<lparr>arg_workers := n\<rparr>) = main w a"
proof -
  have r: "run_targets w (a\<lparr>arg_workers := n\<rparr>) urls = run_targets w a urls" for urls
    by (simp add: run_targets_def cong: sum.case_cong prod.case_cong if_cong)
  show ?thesis
    by (simp add: main_def r Let_def cong: sum.case_cong if_cong)
qed

end
